theory Spec2Isabelle
  imports Complex_Main "HOL-Library.Word"
begin

section \<open>JavaScript numbers, typed arrays and the random source\<close>

text \<open>
  The program is \<^verbatim>\<open>src/App.tsx\<close>. Its numbers are IEEE doubles; they are modelled
  as \<^typ>\<open>real\<close>, the value \<^verbatim>\<open>NaN\<close> (which only an out-of-range read of a typed array can
  produce here, through \<^verbatim>\<open>undefined\<close>) as \<^term>\<open>None\<close> of \<^typ>\<open>real option\<close>. A pixel
  buffer is a \<^verbatim>\<open>Uint8ClampedArray\<close>: a list of bytes.

  The rounding of doubles is not modelled. It shows at one place: at step 75 the exact
  value of \<^verbatim>\<open>(1 - progress) * 6\<close> is 1, where the doubles give 0.9999999999999998, so the
  block size of that step is 2 in the model and 1 in a browser. Nothing below states the
  block size of that step: the statements are about ranges, order and the set of values,
  and the thresholds of the block size are stated on one side each, so that they hold of
  the doubles too.
\<close>

type_synonym byte = "8 word"

text \<open>
  Storing a number into a \<^verbatim>\<open>Uint8ClampedArray\<close> clamps it to 0..255 and rounds it to the
  nearest integer, ties to the even one (ToUint8Clamp); \<^verbatim>\<open>NaN\<close> is stored as 0.
\<close>

definition to_uint8_clamp :: "real \<Rightarrow> byte" where
  "to_uint8_clamp v =
     (if v \<le> 0 then 0
      else if 255 \<le> v then 255
      else let f = \<lfloor>v\<rfloor> in
        if real_of_int f + 1 / 2 < v then word_of_int (f + 1)
        else if v < real_of_int f + 1 / 2 then word_of_int f
        else if even f then word_of_int f else word_of_int (f + 1))"

definition store_num :: "real option \<Rightarrow> byte" where
  "store_num v = (case v of None \<Rightarrow> 0 | Some r \<Rightarrow> to_uint8_clamp r)"

text \<open>
  Reading a typed array at a number: the element when the number is an integer index inside
  the array, \<^verbatim>\<open>undefined\<close> otherwise (which arithmetic turns into \<^verbatim>\<open>NaN\<close>).
\<close>

definition rd :: "byte list \<Rightarrow> real \<Rightarrow> real option" where
  "rd xs r =
     (if r \<in> \<int> \<and> 0 \<le> r \<and> r < real (length xs) then Some (real (unat (xs ! nat \<lfloor>r\<rfloor>)))
      else None)"

text \<open>
  The \<^verbatim>\<open>%\<close> operator on numbers: the remainder of the division truncated towards zero.
  The divisor here is the block size, which the clamp keeps at 1 or more; a zero divisor
  (\<^verbatim>\<open>NaN\<close> in JavaScript) does not occur.
\<close>

definition js_rem :: "real \<Rightarrow> real \<Rightarrow> real" where
  "js_rem a b = a - b * real_of_int (if 0 \<le> a / b then \<lfloor>a / b\<rfloor> else \<lceil>a / b\<rceil>)"

text \<open>
  \<^verbatim>\<open>Math.random()\<close> is an ambient source of numbers in \<open>[0, 1)\<close>. It is modelled as a
  stream \<open>rnd\<close> of reals and a counter of the draws made so far, passed through the code.
\<close>

type_synonym rand = "nat \<Rightarrow> real"

definition unit_rand :: "rand \<Rightarrow> bool" where
  "unit_rand rnd = (\<forall>k. 0 \<le> rnd k \<and> rnd k < 1)"

section \<open>The denoising schedule (lines 97 to 108)\<close>

definition noiseRes :: nat where
  "noiseRes = 64"

definition totalSteps :: nat where
  "totalSteps = 90"

definition progress :: "nat \<Rightarrow> real" where
  "progress step = real step / real totalSteps"

text \<open>\<^verbatim>\<open>Math.pow(2, Math.floor((1 - progress) * 6))\<close>, before the clamp.\<close>

definition rawBlockSize :: "real \<Rightarrow> real" where
  "rawBlockSize t = 2 powr real_of_int \<lfloor>(1 - t) * 6\<rfloor>"

text \<open>\<^verbatim>\<open>Math.max(1, Math.min(32, blockSize))\<close>.\<close>

definition blockSize :: "real \<Rightarrow> real" where
  "blockSize t = max 1 (min 32 (rawBlockSize t))"

text \<open>
  \<^verbatim>\<open>Math.pow(1 - progress, 1.2)\<close> and \<^verbatim>\<open>Math.pow(progress, 0.5)\<close>. The base is never
  negative, since \<open>step\<close> stops at \<open>totalSteps\<close>; on a base that is not negative
  \<^verbatim>\<open>Math.pow\<close> is \<open>powr\<close>, with \<open>0 powr a = 0\<close>.
\<close>

definition noiseScale :: "real \<Rightarrow> real" where
  "noiseScale t = (1 - t) powr 1.2"

definition signalScale :: "real \<Rightarrow> real" where
  "signalScale t = t powr 0.5"

section \<open>One denoising pass over the 64x64 grid (lines 110 to 135)\<close>

text \<open>\<^verbatim>\<open>tY = y - (y % blockSize)\<close>, and the same for \<open>x\<close>: the anchor of the tile.\<close>

definition tileAnchor :: "real \<Rightarrow> nat \<Rightarrow> real" where
  "tileAnchor bs v = real v - js_rem (real v) bs"

text \<open>\<^verbatim>\<open>tI = (tY * noiseRes + tX) * 4\<close>.\<close>

definition tileIndex :: "real \<Rightarrow> nat \<Rightarrow> nat \<Rightarrow> real" where
  "tileIndex bs y x = (tileAnchor bs y * real noiseRes + tileAnchor bs x) * 4"

text \<open>\<^verbatim>\<open>128 + (t - 128) * signalScale\<close>, \<^verbatim>\<open>NaN\<close> when the read was out of range.\<close>

definition biased :: "real \<Rightarrow> real option \<Rightarrow> real option" where
  "biased ss t = map_option (\<lambda>c. 128 + (c - 128) * ss) t"

text \<open>\<^verbatim>\<open>(Math.random() - 0.5) * 510 * noiseScale\<close>, on the draw \<open>r\<close>.\<close>

definition noiseTerm :: "real \<Rightarrow> real \<Rightarrow> real" where
  "noiseTerm ns r = (r - 0.5) * 510 * ns"

text \<open>\<^verbatim>\<open>Math.max(0, Math.min(255, s + n))\<close>, stored into the clamped array.\<close>

definition channel :: "real option \<Rightarrow> real \<Rightarrow> byte" where
  "channel s n = store_num (map_option (\<lambda>c. max 0 (min 255 (c + n))) s)"

text \<open>
  The body of the two nested loops at the pixel \<open>(x, y)\<close>. The state is the buffer
  \<open>data\<close> and the number \<open>k\<close> of random draws made so far. A store outside a typed array
  is ignored, as \<open>list_update\<close> does.
\<close>

definition denoise_pixel ::
  "rand \<Rightarrow> byte list \<Rightarrow> real \<Rightarrow> real \<Rightarrow> real \<Rightarrow> nat \<Rightarrow> nat \<Rightarrow> byte list \<times> nat \<Rightarrow> byte list \<times> nat" where
  "denoise_pixel rnd targetData bs ns ss y x = (\<lambda>(data, k).
     let i = (y * noiseRes + x) * 4;
         tI = tileIndex bs y x;
         tR = rd targetData tI;
         tG = rd targetData (tI + 1);
         tB = rd targetData (tI + 2);
         sR = biased ss tR;
         sG = biased ss tG;
         sB = biased ss tB;
         nR = noiseTerm ns (rnd k);
         nG = noiseTerm ns (rnd (k + 1));
         nB = noiseTerm ns (rnd (k + 2))
     in (data[i := channel sR nR, i + 1 := channel sG nG, i + 2 := channel sB nB, i + 3 := 255],
         k + 3))"

definition denoise_pass :: "rand \<Rightarrow> byte list \<Rightarrow> nat \<Rightarrow> byte list \<times> nat \<Rightarrow> byte list \<times> nat" where
  "denoise_pass rnd targetData s =
     (let t = progress s;
          bs = blockSize t;
          ns = noiseScale t;
          ss = signalScale t
      in fold (\<lambda>y. fold (\<lambda>x. denoise_pixel rnd targetData bs ns ss y x) [0..<noiseRes])
           [0..<noiseRes])"

text \<open>The final loop: \<^verbatim>\<open>for (let i = 0; i < data.length; i++) data[i] = targetData[i]\<close>.\<close>

definition copy_target :: "byte list \<Rightarrow> byte list \<Rightarrow> byte list" where
  "copy_target targetData data =
     fold (\<lambda>i d. d[i := store_num (rd targetData (real i))]) [0..<length data] data"

section \<open>The self-scheduling denoise callback (lines 97 to 154)\<close>

text \<open>
  What the right canvas is given: the frame of a step, or the final frame. Each
  \<^verbatim>\<open>putImageData\<close> followed by \<^verbatim>\<open>drawImage\<close> appends the buffer as it is then.
\<close>

datatype frame = StepFrame nat "byte list" | FinalFrame "byte list"

text \<open>The step a frame belongs to; the final frame belongs to none.\<close>

definition stepIndex :: "frame \<Rightarrow> nat option" where
  "stepIndex f = (case f of StepFrame s d \<Rightarrow> Some s | FinalFrame d \<Rightarrow> None)"

record dstate =
  step :: nat
  data :: "byte list"
  draws :: nat
  frames :: "frame list"
  pending :: bool
  requests :: nat

text \<open>One call of \<^verbatim>\<open>denoise\<close>.\<close>

definition denoise :: "rand \<Rightarrow> byte list \<Rightarrow> dstate \<Rightarrow> dstate" where
  "denoise rnd targetData st =
     (let s = step st + 1;
          (d, k) = denoise_pass rnd targetData s (data st, draws st);
          st1 = st\<lparr>step := s, data := d, draws := k, frames := frames st @ [StepFrame s d]\<rparr>
      in if s < totalSteps then st1\<lparr>pending := True, requests := requests st + 1\<rparr>
         else let d' = copy_target targetData d
              in st1\<lparr>data := d', frames := frames st1 @ [FinalFrame d'], pending := False\<rparr>)"

lemma denoise_pending:
  "pending (denoise rnd targetData st) \<Longrightarrow>
     step (denoise rnd targetData st) = step st + 1 \<and> step st + 1 < totalSteps"
  by (simp add: denoise_def Let_def split: prod.splits if_splits)

text \<open>
  The host runs the scheduled callback at its next frame; nothing else touches the loop.
  The run ends when a call schedules nothing.
\<close>

function denoise_run :: "rand \<Rightarrow> byte list \<Rightarrow> dstate \<Rightarrow> dstate" where
  "denoise_run rnd targetData st =
     (let st' = denoise rnd targetData st
      in if pending st' then denoise_run rnd targetData st' else st')"
  by pat_completeness auto
termination
  by (relation "measure (\<lambda>(rnd, targetData, st). totalSteps - step st)")
     (auto dest: denoise_pending)

declare denoise_run.simps [simp del]

text \<open>
  \<^verbatim>\<open>img.onload\<close>: the buffer is the one \<^verbatim>\<open>createImageData\<close> made (all zero),
  \<open>step\<close> starts at 0 and \<^verbatim>\<open>denoise()\<close> is called once.
\<close>

definition fresh :: "nat \<Rightarrow> dstate" where
  "fresh k = \<lparr>step = 0, data = replicate (noiseRes * noiseRes * 4) 0, draws = k, frames = [],
     pending = False, requests = 0\<rparr>"

definition onload :: "rand \<Rightarrow> byte list \<Rightarrow> nat \<Rightarrow> dstate" where
  "onload rnd targetData k = denoise_run rnd targetData (fresh k)"

section \<open>The point cloud of the left canvas (lines 191 to 211)\<close>

text \<open>
  In this section \<open>sz\<close> is the \<^verbatim>\<open>size\<close> of line 175, the side of the square frame, and
  \<open>pix\<close> is the \<^verbatim>\<open>data\<close> of line 189, the pixels of the captured frame.
\<close>

text \<open>\<^verbatim>\<open>(0.299 * r + 0.587 * g + 0.114 * b) / 255\<close>.\<close>

definition brightness :: "real \<Rightarrow> real \<Rightarrow> real \<Rightarrow> real" where
  "brightness r g b = (0.299 * r + 0.587 * g + 0.114 * b) / 255"

text \<open>\<^verbatim>\<open>Math.pow(brightness, 2.5)\<close>; the brightness is never negative.\<close>

definition probability :: "real \<Rightarrow> real" where
  "probability br = br powr 2.5"

definition dotSize :: real where
  "dotSize = 1.2"

text \<open>\<^verbatim>\<open>(Math.random() - 0.5) * 2\<close>, on the draw \<open>r\<close>.\<close>

definition jitter :: "real \<Rightarrow> real" where
  "jitter r = (r - 0.5) * 2"

text \<open>A call \<^verbatim>\<open>fillRect(x, y, w, h)\<close> under a fill style.\<close>

datatype paint = FillRect string real real real real

text \<open>
  The body of the two sampling loops at \<open>(x, y)\<close>; the state is the list of the dots painted
  so far (their corners) and the number of random draws. A comparison with \<^verbatim>\<open>NaN\<close> is
  false, so a read outside the buffer paints nothing.
\<close>

definition stipple_pixel ::
  "rand \<Rightarrow> nat \<Rightarrow> byte list \<Rightarrow> nat \<Rightarrow> nat \<Rightarrow> (real \<times> real) list \<times> nat \<Rightarrow> (real \<times> real) list \<times> nat" where
  "stipple_pixel rnd sz pix y x = (\<lambda>(dots, k).
     let i = (y * sz + x) * 4
     in case (rd pix (real i), rd pix (real (i + 1)), rd pix (real (i + 2))) of
          (Some r, Some g, Some b) \<Rightarrow>
            if rnd k < probability (brightness r g b)
            then (dots @ [(real x + jitter (rnd (k + 1)), real y + jitter (rnd (k + 2)))], k + 3)
            else (dots, k + 1)
        | _ \<Rightarrow> (dots, k + 1))"

text \<open>\<^verbatim>\<open>for (let x = 0; x < size; x += step)\<close> with \<open>step = 3\<close>, from the current \<open>x\<close>.\<close>

function stipple_row ::
  "rand \<Rightarrow> nat \<Rightarrow> byte list \<Rightarrow> nat \<Rightarrow> nat \<Rightarrow> (real \<times> real) list \<times> nat \<Rightarrow> (real \<times> real) list \<times> nat" where
  "stipple_row rnd sz pix y x acc =
     (if x < sz then stipple_row rnd sz pix y (x + 3) (stipple_pixel rnd sz pix y x acc)
      else acc)"
  by pat_completeness auto
termination
  by (relation "measure (\<lambda>(rnd, sz, pix, y, x, acc). sz - x)") auto

declare stipple_row.simps [simp del]

text \<open>\<^verbatim>\<open>for (let y = 0; y < size; y += step)\<close>, from the current \<open>y\<close>.\<close>

function stipple_rows ::
  "rand \<Rightarrow> nat \<Rightarrow> byte list \<Rightarrow> nat \<Rightarrow> (real \<times> real) list \<times> nat \<Rightarrow> (real \<times> real) list \<times> nat" where
  "stipple_rows rnd sz pix y acc =
     (if y < sz then stipple_rows rnd sz pix (y + 3) (stipple_row rnd sz pix y 0 acc)
      else acc)"
  by pat_completeness auto
termination
  by (relation "measure (\<lambda>(rnd, sz, pix, y, acc). sz - y)") auto

declare stipple_rows.simps [simp del]

text \<open>
  What the left canvas is given: the black background, then one translucent white square
  for every dot.
\<close>

definition pointCloud :: "rand \<Rightarrow> nat \<Rightarrow> byte list \<Rightarrow> nat \<Rightarrow> paint list" where
  "pointCloud rnd sz pix k =
     FillRect ''#000000'' 0 0 (real sz) (real sz)
     # map (\<lambda>(x, y). FillRect ''rgba(255, 255, 255, 0.9)'' x y dotSize dotSize)
         (fst (stipple_rows rnd sz pix 0 ([], k)))"

text \<open>A dot lies within one pixel, on each axis, of a sampled position of the grid.\<close>

definition near_grid :: "nat \<Rightarrow> real \<times> real \<Rightarrow> bool" where
  "near_grid sz d =
     (\<exists>gx gy. gx < sz \<and> gy < sz \<and> gx mod 3 = 0 \<and> gy mod 3 = 0
        \<and> \<bar>fst d - real gx\<bar> \<le> 1 \<and> \<bar>snd d - real gy\<bar> \<le> 1)"

text \<open>Every sampled pixel that the buffer holds is black.\<close>

definition sampled_black :: "nat \<Rightarrow> byte list \<Rightarrow> bool" where
  "sampled_black sz pix =
     (\<forall>x y c. x < sz \<and> y < sz \<and> x mod 3 = 0 \<and> y mod 3 = 0 \<and> c < 3
        \<and> (y * sz + x) * 4 + c < length pix \<longrightarrow> pix ! ((y * sz + x) * 4 + c) = 0)"

section \<open>The concept text (lines 228 and 250)\<close>

text \<open>
  A string is a list of code units below 256. \<^verbatim>\<open>String.prototype.trim\<close> removes white
  space and line terminators from both ends; below 256 these are the code units 9 to 13,
  32 and 160.
\<close>

definition is_space :: "char \<Rightarrow> bool" where
  "is_space c = (c \<in> set [CHR 0x09, CHR 0x0A, CHR 0x0B, CHR 0x0C, CHR 0x0D, CHR 0x20, CHR 0xA0])"

definition trim :: "string \<Rightarrow> string" where
  "trim t = rev (dropWhile is_space (rev (dropWhile is_space t)))"

definition fallbackConcept :: string where
  "fallbackConcept = ''Unidentified object''"

definition errorText :: string where
  "errorText = ''Error: System failed to generate image.''"

text \<open>
  \<^verbatim>\<open>visionResponse.text?.trim() || "Unidentified object"\<close>: the text of the response is
  \<^verbatim>\<open>undefined\<close> (\<open>None\<close>) or a string; \<^verbatim>\<open>undefined\<close> and the empty string are falsy.
\<close>

definition conceptOf :: "string option \<Rightarrow> string" where
  "conceptOf txt =
     (case txt of
        None \<Rightarrow> fallbackConcept
      | Some t \<Rightarrow> if trim t = [] then fallbackConcept else trim t)"

section \<open>The controller: React state, the effect and the capture chain\<close>

text \<open>A value of type \<^verbatim>\<open>string | null\<close> is truthy when it is a string that is not empty.\<close>

definition truthy :: "string option \<Rightarrow> bool" where
  "truthy v = (case v of None \<Rightarrow> False | Some t \<Rightarrow> t \<noteq> [])"

text \<open>
  A callback handed to \<^verbatim>\<open>requestAnimationFrame\<close>: \<^verbatim>\<open>drawNoise\<close>, or the \<^verbatim>\<open>denoise\<close>
  of one load handler, with the value its \<open>step\<close> variable has.
\<close>

datatype callback = DrawNoise | Denoise nat

text \<open>What is drawn on the right canvas.\<close>

datatype render = Black | NoiseFrame | DenoiseFrame nat | TerminalFrame

text \<open>Where \<^verbatim>\<open>captureSubject\<close> is suspended: at the first or at the second \<^verbatim>\<open>await\<close>.\<close>

datatype stage = Vision | ImageGen string

text \<open>What the caption under the right canvas shows (lines 311 to 320).\<close>

datatype caption = NoCaption | Synthesizing | Extracting | Prompt "string option"

text \<open>
  The page: the five React state variables and the ref of lines 11 to 18, and around them
  the host. \<open>nextHandle\<close> is the next handle \<^verbatim>\<open>requestAnimationFrame\<close> gives out (handles
  are positive), \<open>queue\<close> the callbacks scheduled for the next animation frame, \<open>loading\<close>
  the sources of the images whose \<^verbatim>\<open>onload\<close> is still to fire, \<open>cleanup\<close> whether the last
  run of the effect returned its cleanup function, \<open>awaiting\<close> the \<^verbatim>\<open>await\<close> at which
  \<^verbatim>\<open>captureSubject\<close> is suspended, and \<open>rendered\<close> what has been drawn on the right canvas.
\<close>

record app =
  isCameraReady :: bool
  hasCaptured :: bool
  isAnalyzing :: bool
  aiConcept :: "string option"
  generatedImage :: "string option"
  animationRef :: "nat option"
  nextHandle :: nat
  queue :: "(nat \<times> callback) list"
  loading :: "string list"
  cleanup :: bool
  awaiting :: "stage option"
  rendered :: "render list"

text \<open>
  \<^verbatim>\<open>animationRef.current = requestAnimationFrame(cb)\<close>: the callback joins the host's list
  under a fresh handle, which the ref keeps.
\<close>

definition request :: "callback \<Rightarrow> app \<Rightarrow> app" where
  "request cb s = s\<lparr>animationRef := Some (nextHandle s),
     queue := queue s @ [(nextHandle s, cb)], nextHandle := Suc (nextHandle s)\<rparr>"

text \<open>\<^verbatim>\<open>if (animationRef.current) cancelAnimationFrame(animationRef.current)\<close>.\<close>

definition cancelCurrent :: "app \<Rightarrow> app" where
  "cancelCurrent s =
     (case animationRef s of
        None \<Rightarrow> s
      | Some h \<Rightarrow> if h = 0 then s else s\<lparr>queue := filter (\<lambda>(h', cb). h' \<noteq> h) (queue s)\<rparr>)"

text \<open>One call of \<^verbatim>\<open>drawNoise\<close> (lines 67 to 81).\<close>

definition drawNoise :: "app \<Rightarrow> app" where
  "drawNoise s = request DrawNoise (s\<lparr>rendered := rendered s @ [NoiseFrame]\<rparr>)"

text \<open>One call of \<^verbatim>\<open>denoise\<close> whose \<open>step\<close> variable holds \<open>k\<close> (lines 100 to 153).\<close>

definition denoiseCall :: "nat \<Rightarrow> app \<Rightarrow> app" where
  "denoiseCall k s =
     (let n = k + 1;
          s1 = s\<lparr>rendered := rendered s @ [DenoiseFrame n]\<rparr>
      in if n < totalSteps then request (Denoise n) s1
         else s1\<lparr>rendered := rendered s1 @ [TerminalFrame]\<rparr>)"

text \<open>
  The body of the second effect (lines 39 to 162); the canvases and their contexts exist.
  Without a capture it paints the canvas black and returns no cleanup function; otherwise
  it returns the one of line 159. In the last branch the image is given its source and its
  \<^verbatim>\<open>onload\<close> handler; the handler runs later, at the load event.
\<close>

definition effect :: "app \<Rightarrow> app" where
  "effect s =
     (if \<not> hasCaptured s then s\<lparr>rendered := rendered s @ [Black], cleanup := False\<rparr>
      else if isAnalyzing s \<or> (\<not> truthy (generatedImage s) \<and> truthy (aiConcept s))
        then (drawNoise s)\<lparr>cleanup := True\<rparr>
      else if truthy (generatedImage s)
        then (cancelCurrent s)\<lparr>loading := loading s @ [the (generatedImage s)], cleanup := True\<rparr>
      else s\<lparr>cleanup := True\<rparr>)"

text \<open>The dependencies of the effect (line 162).\<close>

definition deps :: "app \<Rightarrow> bool \<times> string option \<times> bool \<times> string option" where
  "deps s = (isAnalyzing s, generatedImage s, hasCaptured s, aiConcept s)"

text \<open>
  A render after the state updates of one handler, which React applies together: when a
  dependency has changed since the state \<open>old\<close>, the cleanup of the last run is called, if
  there is one, and the effect runs again.
\<close>

definition commit :: "app \<Rightarrow> app \<Rightarrow> app" where
  "commit old s =
     (if deps s = deps old then s
      else effect (if cleanup s then cancelCurrent s else s))"

text \<open>
  \<^verbatim>\<open>captureSubject\<close> up to its first \<^verbatim>\<open>await\<close> (lines 165 to 226); the video, the left
  canvas and its context exist. What it paints on the left canvas is \<open>pointCloud\<close> above;
  here are its four state updates and the render that follows them.
\<close>

definition captureSubject :: "nat \<Rightarrow> nat \<Rightarrow> app \<Rightarrow> app" where
  "captureSubject vidW vidH s =
     (if vidW = 0 \<or> vidH = 0 then s
      else (commit s (s\<lparr>hasCaptured := True, isAnalyzing := True, aiConcept := None,
              generatedImage := None\<rparr>))\<lparr>awaiting := Some Vision\<rparr>)"

text \<open>The \<^verbatim>\<open>catch\<close> block (lines 248 to 252).\<close>

definition failed :: "app \<Rightarrow> app" where
  "failed s =
     (commit s (s\<lparr>aiConcept := Some errorText, isAnalyzing := False\<rparr>))\<lparr>awaiting := None\<rparr>"

text \<open>
  What can happen to the page: the camera gets ready; the button is clicked while the
  video has the given width and height; the first call answers with a text or fails; the
  second call answers with the data of an image, or none, or fails; the host runs an
  animation frame; the oldest image that is still loading fires its load event. The
  button is disabled while the camera is not ready or the page is analysing (line 265); an
  answer that no call awaits does not happen and changes nothing.
\<close>

datatype event =
    CameraReady
  | Click nat nat
  | VisionOk "string option"
  | VisionFail
  | ImageOk "string option"
  | ImageFail
  | Frame
  | ImageLoaded

definition runCallback :: "nat \<times> callback \<Rightarrow> app \<Rightarrow> app" where
  "runCallback c s = (case snd c of DrawNoise \<Rightarrow> drawNoise s | Denoise k \<Rightarrow> denoiseCall k s)"

fun step_app :: "event \<Rightarrow> app \<Rightarrow> app" where
  "step_app CameraReady s = s\<lparr>isCameraReady := True\<rparr>"
| "step_app (Click vidW vidH) s =
     (if \<not> isCameraReady s \<or> isAnalyzing s then s else captureSubject vidW vidH s)"
| "step_app (VisionOk txt) s =
     (case awaiting s of
        Some Vision \<Rightarrow>
          (commit s (s\<lparr>aiConcept := Some (conceptOf txt)\<rparr>))\<lparr>awaiting := Some (ImageGen (conceptOf txt))\<rparr>
      | _ \<Rightarrow> s)"
| "step_app VisionFail s = (case awaiting s of Some Vision \<Rightarrow> failed s | _ \<Rightarrow> s)"
| "step_app (ImageOk genBase64) s =
     (case awaiting s of
        Some (ImageGen c) \<Rightarrow>
          if \<not> truthy genBase64 then failed s
          else (commit s (s\<lparr>generatedImage := Some (''data:image/jpeg;base64,'' @ the genBase64),
                  isAnalyzing := False\<rparr>))\<lparr>awaiting := None\<rparr>
      | _ \<Rightarrow> s)"
| "step_app ImageFail s = (case awaiting s of Some (ImageGen c) \<Rightarrow> failed s | _ \<Rightarrow> s)"
| "step_app Frame s = fold runCallback (queue s) (s\<lparr>queue := []\<rparr>)"
| "step_app ImageLoaded s =
     (case loading s of [] \<Rightarrow> s | img # rest \<Rightarrow> denoiseCall 0 (s\<lparr>loading := rest\<rparr>))"

text \<open>The page after its first render: nothing captured, the effect has run once.\<close>

definition mounted :: app where
  "mounted = effect \<lparr>isCameraReady = False, hasCaptured = False, isAnalyzing = False,
     aiConcept = None, generatedImage = None, animationRef = None, nextHandle = 1, queue = [],
     loading = [], cleanup = False, awaiting = None, rendered = []\<rparr>"

definition run :: "event list \<Rightarrow> app \<Rightarrow> app" where
  "run es s = fold step_app es s"

definition captionOf :: "app \<Rightarrow> caption" where
  "captionOf s =
     (if \<not> hasCaptured s then NoCaption
      else if \<not> truthy (generatedImage s) \<and> truthy (aiConcept s) then Synthesizing
      else if isAnalyzing s then Extracting
      else Prompt (aiConcept s))"

text \<open>While \<^verbatim>\<open>captureSubject\<close> is suspended, the page is analysing and holds no image.\<close>

definition chain_inv :: "app \<Rightarrow> bool" where
  "chain_inv s = (awaiting s \<noteq> None \<longrightarrow> isAnalyzing s \<and> hasCaptured s \<and> generatedImage s = None)"

section \<open>Invariants of the controller\<close>

text \<open>
  No click lands between the arrival of an image and its load event: along the run, the
  button is clicked only when no image is loading.
\<close>

fun timely :: "event list \<Rightarrow> app \<Rightarrow> bool" where
  "timely [] s = True"
| "timely (e # es) s =
     ((case e of Click vidW vidH \<Rightarrow> loading s = [] | _ \<Rightarrow> True) \<and> timely es (step_app e s))"

text \<open>
  At most one callback is scheduled, the ref holds its handle, and a cleanup is registered
  whenever one is scheduled; at most one image is loading, and then nothing is scheduled
  and nothing awaited.
\<close>

definition sched_inv :: "app \<Rightarrow> bool" where
  "sched_inv s =
     (length (queue s) \<le> 1
      \<and> (\<forall>c \<in> set (queue s). animationRef s = Some (fst c) \<and> fst c \<noteq> 0)
      \<and> 0 < nextHandle s
      \<and> (cleanup s \<or> queue s = [])
      \<and> length (loading s) \<le> 1
      \<and> (loading s \<noteq> [] \<longrightarrow> queue s = [] \<and> awaiting s = None \<and> cleanup s))"

text \<open>No scheduled \<open>denoise\<close> callback has its step counter at 0: the counter is raised before
  the callback is scheduled.\<close>

definition started_inv :: "app \<Rightarrow> bool" where
  "started_inv s = (\<forall>c \<in> set (queue s). snd c \<noteq> Denoise 0)"

text \<open>What a transition draws on the right canvas.\<close>

definition drawn :: "event \<Rightarrow> app \<Rightarrow> render list" where
  "drawn e s = drop (length (rendered s)) (rendered (step_app e s))"

text \<open>An operation only appends frames, none of them the frame of step 1, and schedules no
  callback with the counter 0.\<close>

definition quiet :: "(app \<Rightarrow> app) \<Rightarrow> bool" where
  "quiet f = (\<forall>s. started_inv s \<longrightarrow>
     started_inv (f s) \<and> (\<exists>r. rendered (f s) = rendered s @ r \<and> DenoiseFrame 1 \<notin> set r))"

section \<open>Properties of the schedule\<close>

lemma noiseScale_strict:
  assumes "a < b" "b \<le> 1"
  shows "noiseScale b < noiseScale a"
  unfolding noiseScale_def using assms by (intro powr_less_mono2) simp_all

lemma signalScale_strict:
  assumes "0 \<le> a" "a < b"
  shows "signalScale a < signalScale b"
  unfolding signalScale_def using assms by (intro powr_less_mono2) simp_all

lemma noiseScale_range:
  assumes "0 \<le> t" "t \<le> 1"
  shows "0 \<le> noiseScale t \<and> noiseScale t \<le> 1"
  unfolding noiseScale_def using assms by (simp add: powr_le1)

lemma signalScale_range:
  assumes "0 \<le> t" "t \<le> 1"
  shows "0 \<le> signalScale t \<and> signalScale t \<le> 1"
  unfolding signalScale_def using assms by (simp add: powr_le1)

lemma progress_mono: "s < s' \<Longrightarrow> progress s < progress s'"
  by (simp add: progress_def totalSteps_def divide_strict_right_mono)

lemma progress_range: "s \<le> totalSteps \<Longrightarrow> 0 \<le> progress s \<and> progress s \<le> 1"
  by (simp add: progress_def totalSteps_def)

text \<open>
  Claim C6. On the progress values and on the whole interval \<open>[0, 1]\<close>, \<open>noiseScale\<close> is
  strictly decreasing and \<open>signalScale\<close> strictly increasing, both stay in \<open>[0, 1]\<close>,
  \<open>noiseScale 1 = 0\<close> and \<open>signalScale 0 = 0\<close>. The two steps \<open>s < s'\<close> range over
  1..90.
\<close>

theorem schedule_scales:
  assumes "0 \<le> a" "a < b" "b \<le> 1" "1 \<le> s" "s < s'" "s' \<le> 90"
  shows "noiseScale b < noiseScale a \<and> signalScale a < signalScale b
    \<and> 0 \<le> noiseScale a \<and> noiseScale a \<le> 1 \<and> 0 \<le> noiseScale b \<and> noiseScale b \<le> 1
    \<and> 0 \<le> signalScale a \<and> signalScale a \<le> 1 \<and> 0 \<le> signalScale b \<and> signalScale b \<le> 1
    \<and> noiseScale 1 = 0 \<and> signalScale 0 = 0
    \<and> noiseScale (progress s') < noiseScale (progress s)
    \<and> signalScale (progress s) < signalScale (progress s')"
proof -
  have a1: "a \<le> 1" and b0: "0 \<le> b" using assms by simp_all
  have ps: "progress s < progress s'" using assms by (simp add: progress_mono)
  have p1: "progress s' \<le> 1" using assms progress_range[of s'] by (simp add: totalSteps_def)
  have p0: "0 \<le> progress s" by (simp add: progress_def)
  have e: "noiseScale 1 = 0" "signalScale 0 = 0" by (simp_all add: noiseScale_def signalScale_def)
  show ?thesis
    using noiseScale_strict[OF assms(2,3)] signalScale_strict[OF assms(1,2)]
      noiseScale_range[OF assms(1) a1] noiseScale_range[OF b0 assms(3)]
      signalScale_range[OF assms(1) a1] signalScale_range[OF b0 assms(3)]
      noiseScale_strict[OF ps p1] signalScale_strict[OF p0 ps] e
    by simp
qed

theorem schedule_scales_witness:
  "(0::real) \<le> 1 / 90 \<and> (1::real) / 90 < 2 / 90 \<and> (2::real) / 90 \<le> 1 \<and> (1::nat) \<le> 1 \<and> (1::nat) < 2 \<and> (2::nat) \<le> 90
    \<and> noiseScale (2 / 90) < noiseScale (1 / 90) \<and> signalScale (1 / 90) < signalScale (2 / 90)
    \<and> noiseScale (progress 2) < noiseScale (progress 1)"
  using schedule_scales[of "1 / 90" "2 / 90" 1 2] by simp

lemma rawBlockSize_pow:
  assumes "t \<le> 1"
  shows "rawBlockSize t = 2 ^ nat \<lfloor>(1 - t) * 6\<rfloor>"
proof -
  have "0 \<le> \<lfloor>(1 - t) * 6\<rfloor>" using assms by simp
  then show ?thesis by (simp add: rawBlockSize_def powr_real_of_int)
qed

lemma blockSize_antimono:
  assumes "a \<le> b"
  shows "blockSize b \<le> blockSize a"
proof -
  have "\<lfloor>(1 - b) * 6\<rfloor> \<le> \<lfloor>(1 - a) * 6\<rfloor>"
    using assms by (intro floor_mono) simp
  then have "real_of_int \<lfloor>(1 - b) * 6\<rfloor> \<le> real_of_int \<lfloor>(1 - a) * 6\<rfloor>" by simp
  then have "rawBlockSize b \<le> rawBlockSize a"
    unfolding rawBlockSize_def by (intro powr_mono) simp_all
  then show ?thesis by (simp add: blockSize_def max_def min_def)
qed

lemma blockSize_range: "1 \<le> blockSize t \<and> blockSize t \<le> 32"
  by (simp add: blockSize_def)

lemma rawBlockSize_cases:
  assumes "t \<le> 1"
  obtains n :: nat where "rawBlockSize t = 2 ^ n" "int n = \<lfloor>(1 - t) * 6\<rfloor>"
proof -
  have "0 \<le> \<lfloor>(1 - t) * 6\<rfloor>" using assms by simp
  then have "int (nat \<lfloor>(1 - t) * 6\<rfloor>) = \<lfloor>(1 - t) * 6\<rfloor>" by simp
  then show ?thesis using rawBlockSize_pow[OF assms] that by blast
qed

lemma blockSize_late:
  assumes "t \<le> 1"
  shows "(blockSize t = 1 \<longrightarrow> 5 / 6 \<le> t) \<and> (5 / 6 < t \<longrightarrow> blockSize t = 1)"
proof -
  obtain n :: nat where r: "rawBlockSize t = 2 ^ n" and n: "int n = \<lfloor>(1 - t) * 6\<rfloor>"
    using rawBlockSize_cases[OF assms] by blast
  have ge1: "(1::real) \<le> 2 ^ n" by simp
  have "blockSize t = 1 \<longleftrightarrow> (2::real) ^ n = 1"
    using ge1 unfolding blockSize_def r by (auto simp: max_def min_def)
  also have "(2::real) ^ n = 1 \<longleftrightarrow> n = 0"
    using power_inject_exp[of "2::real" n 0] by simp
  also have "n = 0 \<longleftrightarrow> \<lfloor>(1 - t) * 6\<rfloor> < 1" using n by linarith
  also have "\<lfloor>(1 - t) * 6\<rfloor> < 1 \<longleftrightarrow> (1 - t) * 6 < 1" by (simp only: floor_less_iff of_int_1)
  also have "(1 - t) * 6 < 1 \<longleftrightarrow> 5 / 6 < t" by (simp add: field_simps)
  finally have "blockSize t = 1 \<longleftrightarrow> 5 / 6 < t" .
  then show ?thesis by auto
qed

lemma blockSize_early:
  assumes "t < 1 / 6"
  shows "blockSize t = 32"
proof -
  have t1: "t \<le> 1" using assms by simp
  obtain n :: nat where r: "rawBlockSize t = 2 ^ n" and n: "int n = \<lfloor>(1 - t) * 6\<rfloor>"
    using rawBlockSize_cases[OF t1] by blast
  have "5 \<le> (1 - t) * 6" using assms by (simp add: field_simps)
  then have "5 \<le> \<lfloor>(1 - t) * 6\<rfloor>" by (simp only: le_floor_iff of_int_numeral)
  then have "5 \<le> n" using n by linarith
  then have "(2::real) ^ 5 \<le> 2 ^ n" by (intro power_increasing) simp_all
  then have "(32::real) \<le> 2 ^ n" by simp
  then show ?thesis unfolding blockSize_def r by (simp add: max_def min_def)
qed

text \<open>
  Claim C7. \<open>blockSize\<close> does not increase as the progress grows from 0 to 1 and it stays in
  \<open>[1, 32]\<close>. It starts at 32: it is 32 at every progress below 1/6, so at the steps up to
  14. It reaches 1 only near the end: where it is 1 the progress is at least 5/6, so the
  step at least 75, and beyond the progress 5/6, so from step 76 on, it is 1. The two
  thresholds are stated on one side each: nothing is said at the progress 1/6 or 5/6.
\<close>

theorem blockSize_schedule:
  assumes "0 \<le> a" "a \<le> b" "b \<le> 1" "s \<le> 90"
  shows "blockSize b \<le> blockSize a
    \<and> 1 \<le> blockSize a \<and> blockSize a \<le> 32 \<and> 1 \<le> blockSize b \<and> blockSize b \<le> 32
    \<and> (a < 1 / 6 \<longrightarrow> blockSize a = 32)
    \<and> (blockSize b = 1 \<longrightarrow> 5 / 6 \<le> b) \<and> (5 / 6 < b \<longrightarrow> blockSize b = 1)
    \<and> (s \<le> 14 \<longrightarrow> blockSize (progress s) = 32)
    \<and> (blockSize (progress s) = 1 \<longrightarrow> 75 \<le> s)
    \<and> (76 \<le> s \<longrightarrow> blockSize (progress s) = 1)
    \<and> blockSize 0 = 32 \<and> blockSize (progress 1) = 32 \<and> blockSize 1 = 1"
proof -
  have p1: "progress s \<le> 1" using assms(4) by (simp add: progress_def totalSteps_def)
  have e: "s \<le> 14 \<longrightarrow> blockSize (progress s) = 32"
  proof
    assume "s \<le> 14"
    then have "progress s < 1 / 6" by (simp add: progress_def totalSteps_def)
    then show "blockSize (progress s) = 32" by (rule blockSize_early)
  qed
  have l1: "blockSize (progress s) = 1 \<longrightarrow> 75 \<le> s"
  proof
    assume "blockSize (progress s) = 1"
    then have "5 / 6 \<le> progress s" using blockSize_late[OF p1] by blast
    then show "75 \<le> s" by (simp add: progress_def totalSteps_def)
  qed
  have l2: "76 \<le> s \<longrightarrow> blockSize (progress s) = 1"
  proof
    assume "76 \<le> s"
    then have "5 / 6 < progress s" by (simp add: progress_def totalSteps_def)
    then show "blockSize (progress s) = 1" using blockSize_late[OF p1] by blast
  qed
  have z: "blockSize 0 = 32" using blockSize_early[of 0] by simp
  have f: "blockSize (progress 1) = 32"
    using blockSize_early[of "progress 1"] by (simp add: progress_def totalSteps_def)
  have o: "blockSize 1 = 1" using blockSize_late[of 1] by simp
  have ea: "a < 1 / 6 \<longrightarrow> blockSize a = 32" using blockSize_early[of a] by blast
  show ?thesis
    using blockSize_antimono[OF assms(2)] blockSize_range[of a] blockSize_range[of b]
      blockSize_late[OF assms(3)] ea e l1 l2 z f o
    by blast
qed

theorem blockSize_schedule_witness:
  "(0::real) \<le> 1 / 90 \<and> (1::real) / 90 \<le> 1 \<and> (1::real) \<le> 1 \<and> (80::nat) \<le> 90
    \<and> blockSize 1 \<le> blockSize (1 / 90) \<and> blockSize (1 / 90) = 32 \<and> blockSize 1 = 1
    \<and> blockSize (progress 80) = 1"
proof -
  have h: "(0::real) \<le> 1 / 90" "(1::real) / 90 \<le> 1" "(1::real) \<le> 1" "(80::nat) \<le> 90"
    by simp_all
  note r = blockSize_schedule[OF h]
  have "(1::real) / 90 < 1 / 6" "(76::nat) \<le> 80" by simp_all
  then show ?thesis using h r by blast
qed

section \<open>Tiles and reads of the target grid\<close>

lemma js_rem_nat:
  assumes "0 < b"
  shows "js_rem (real v) (real b) = real (v mod b)"
proof -
  have "0 \<le> real v / real b" by simp
  then have "js_rem (real v) (real b) = real v - real b * real_of_int \<lfloor>real v / real b\<rfloor>"
    by (simp only: js_rem_def if_True)
  also have "\<lfloor>real v / real b\<rfloor> = int (v div b)" by (rule floor_divide_of_nat_eq)
  also have "real v - real b * real_of_int (int (v div b)) = real (v mod b)"
  proof -
    have "v = b * (v div b) + v mod b" by simp
    then have "real v = real b * real (v div b) + real (v mod b)"
      by (metis of_nat_add of_nat_mult)
    then show ?thesis by simp
  qed
  finally show ?thesis .
qed

lemma tileAnchor_nat:
  assumes "0 < b"
  shows "tileAnchor (real b) v = real (v - v mod b)"
  unfolding tileAnchor_def js_rem_nat[OF assms]
  by (simp add: of_nat_diff)

lemma tileIndex_nat:
  assumes "0 < b"
  shows "tileIndex (real b) y x = real (((y - y mod b) * noiseRes + (x - x mod b)) * 4)"
  by (simp only: tileIndex_def tileAnchor_nat[OF assms] of_nat_add of_nat_mult of_nat_numeral)

lemma rd_nat: "rd xs (real i) = (if i < length xs then Some (real (unat (xs ! i))) else None)"
  unfolding rd_def by simp

lemma step_blockSize:
  assumes "1 \<le> s" "s \<le> 90"
  obtains n :: nat where "n \<le> 5" "blockSize (progress s) = 2 ^ n" "rawBlockSize (progress s) = 2 ^ n"
proof -
  have t1: "progress s \<le> 1" using assms by (simp add: progress_def totalSteps_def)
  have t0: "1 / 90 \<le> progress s" using assms by (simp add: progress_def totalSteps_def)
  obtain n :: nat where r: "rawBlockSize (progress s) = 2 ^ n"
      and n: "int n = \<lfloor>(1 - progress s) * 6\<rfloor>"
    using rawBlockSize_cases[OF t1] by blast
  have "(1 - progress s) * 6 < 6" using t0 by simp
  then have "\<lfloor>(1 - progress s) * 6\<rfloor> < 6" by (simp only: floor_less_iff of_int_numeral)
  then have n5: "n \<le> 5" using n by linarith
  have "(2::real) ^ n \<le> 2 ^ 5" using n5 by (intro power_increasing) simp_all
  then have "(2::real) ^ n \<le> 32" by simp
  moreover have "(1::real) \<le> 2 ^ n" by simp
  ultimately have "blockSize (progress s) = 2 ^ n"
    unfolding blockSize_def r by (simp add: max_def min_def)
  then show ?thesis using n5 r that by blast
qed

lemma pow2_values:
  assumes "n \<le> (5::nat)"
  shows "(2::nat) ^ n \<in> {1, 2, 4, 8, 16, 32} \<and> 2 ^ n dvd (64::nat)"
proof -
  have "n \<in> {0, 1, 2, 3, 4, 5}" using assms by auto
  then show ?thesis by auto
qed

text \<open>
  Claim C10. At every step 1..90 the block size is one of 1, 2, 4, 8, 16, 32, a divisor of
  the grid side 64, and the clamp leaves the computed power of two as it is; so the
  anchors \<open>x - x mod blockSize\<close> and \<open>y - y mod blockSize\<close> of every pixel of the grid are
  inside the grid, and the three reads of \<open>targetData\<close> at \<open>tI\<close>, \<open>tI + 1\<close> and \<open>tI + 2\<close> are
  inside a buffer of 64 * 64 * 4 bytes.
\<close>

theorem tile_reads_in_bounds:
  assumes "1 \<le> s" "s \<le> 90" "x < 64" "y < 64" "length targetData = 64 * 64 * 4"
  shows "blockSize (progress s) \<in> {1, 2, 4, 8, 16, 32}
    \<and> blockSize (progress s) = rawBlockSize (progress s)
    \<and> (\<exists>b::nat. blockSize (progress s) = real b \<and> b dvd 64
         \<and> tileAnchor (blockSize (progress s)) x = real (x - x mod b)
         \<and> tileAnchor (blockSize (progress s)) y = real (y - y mod b))
    \<and> 0 \<le> tileAnchor (blockSize (progress s)) x \<and> tileAnchor (blockSize (progress s)) x < 64
    \<and> 0 \<le> tileAnchor (blockSize (progress s)) y \<and> tileAnchor (blockSize (progress s)) y < 64
    \<and> rd targetData (tileIndex (blockSize (progress s)) y x) \<noteq> None
    \<and> rd targetData (tileIndex (blockSize (progress s)) y x + 1) \<noteq> None
    \<and> rd targetData (tileIndex (blockSize (progress s)) y x + 2) \<noteq> None"
proof -
  obtain n :: nat where n5: "n \<le> 5" and bs: "blockSize (progress s) = 2 ^ n"
      and raw: "rawBlockSize (progress s) = 2 ^ n"
    using step_blockSize[OF assms(1,2)] by blast
  define b :: nat where "b = 2 ^ n"
  have b0: "0 < b" by (simp add: b_def)
  have bv: "b \<in> {1, 2, 4, 8, 16, 32}" and bd: "b dvd 64"
    using pow2_values[OF n5] by (simp_all add: b_def)
  have bsb: "blockSize (progress s) = real b" by (simp add: bs b_def)
  have rawb: "real b = rawBlockSize (progress s)" by (simp add: raw b_def)
  have ax: "tileAnchor (real b) x = real (x - x mod b)"
    and ay: "tileAnchor (real b) y = real (y - y mod b)"
    by (rule tileAnchor_nat[OF b0])+
  have lx: "x - x mod b < 64" and ly: "y - y mod b < 64" using assms(3,4) by arith+
  have rx: "0 \<le> tileAnchor (real b) x \<and> tileAnchor (real b) x < 64"
    unfolding ax using lx by (simp del: of_nat_diff)
  have ry: "0 \<le> tileAnchor (real b) y \<and> tileAnchor (real b) y < 64"
    unfolding ay using ly by (simp del: of_nat_diff)
  define i where "i = ((y - y mod b) * noiseRes + (x - x mod b)) * 4"
  have ti: "tileIndex (real b) y x = real i" unfolding i_def by (rule tileIndex_nat[OF b0])
  have "(y - y mod b) * 64 \<le> 63 * 64" using ly by simp
  then have ib: "i + 3 < length targetData"
    using lx by (simp add: i_def noiseRes_def assms(5))
  have r0: "rd targetData (real i) \<noteq> None" using ib by (simp add: rd_nat)
  have "rd targetData (real (i + 1)) \<noteq> None" using ib by (simp only: rd_nat) simp
  then have r1: "rd targetData (real i + 1) \<noteq> None" by (simp add: add.commute)
  have "rd targetData (real (i + 2)) \<noteq> None" using ib by (simp only: rd_nat) simp
  then have r2: "rd targetData (real i + 2) \<noteq> None" by (simp add: add.commute)
  have v: "real b \<in> {1, 2, 4, 8, 16, 32}" using bv by auto
  have ex: "\<exists>c::nat. real b = real c \<and> c dvd 64
         \<and> tileAnchor (real b) x = real (x - x mod c)
         \<and> tileAnchor (real b) y = real (y - y mod c)"
    using bd ax ay by blast
  show ?thesis
    unfolding bsb ti using v rawb ex rx ry r0 r1 r2 by blast
qed

theorem tile_reads_in_bounds_witness:
  "(1::nat) \<le> 45 \<and> (45::nat) \<le> 90 \<and> (37::nat) < 64 \<and> (21::nat) < 64
    \<and> length (replicate 16384 (0::byte)) = 64 * 64 * 4
    \<and> blockSize (progress 45) \<in> {1, 2, 4, 8, 16, 32}
    \<and> rd (replicate 16384 0) (tileIndex (blockSize (progress 45)) 21 37) \<noteq> None"
proof -
  have h: "(1::nat) \<le> 45" "(45::nat) \<le> 90" "(37::nat) < 64" "(21::nat) < 64"
    "length (replicate 16384 (0::byte)) = 64 * 64 * 4" by simp_all
  from tile_reads_in_bounds[OF h] show ?thesis using h by blast
qed

section \<open>The run of the denoiser\<close>

lemma denoise_continue:
  assumes "step st + 1 < totalSteps"
  shows "pending (denoise rnd t st) \<and> step (denoise rnd t st) = step st + 1
    \<and> requests (denoise rnd t st) = requests st + 1
    \<and> map stepIndex (frames (denoise rnd t st)) = map stepIndex (frames st) @ [Some (step st + 1)]"
  using assms by (simp add: denoise_def Let_def stepIndex_def split: prod.splits)

lemma denoise_last:
  assumes "\<not> step st + 1 < totalSteps"
  shows "\<not> pending (denoise rnd t st) \<and> step (denoise rnd t st) = step st + 1
    \<and> requests (denoise rnd t st) = requests st
    \<and> map stepIndex (frames (denoise rnd t st))
        = map stepIndex (frames st) @ [Some (step st + 1), None]"
  using assms by (simp add: denoise_def Let_def stepIndex_def split: prod.splits)

lemma denoise_run_trace:
  "step st < totalSteps \<Longrightarrow>
     step (denoise_run rnd t st) = totalSteps
     \<and> \<not> pending (denoise_run rnd t st)
     \<and> requests (denoise_run rnd t st) = requests st + (totalSteps - 1 - step st)
     \<and> map stepIndex (frames (denoise_run rnd t st))
         = map stepIndex (frames st) @ map Some [step st + 1 ..< totalSteps + 1] @ [None]"
proof (induction rnd t st rule: denoise_run.induct)
  case (1 rnd t st)
  show ?case
  proof (cases "step st + 1 < totalSteps")
    case True
    note c = denoise_continue[OF True, of rnd t]
    have p: "pending (denoise rnd t st)" using c by simp
    have lt: "step (denoise rnd t st) < totalSteps" using c True by simp
    have unf: "denoise_run rnd t st = denoise_run rnd t (denoise rnd t st)"
      using p by (subst denoise_run.simps) (simp add: Let_def)
    have up: "[step st + 1 ..< totalSteps + 1] = (step st + 1) # [step st + 2 ..< totalSteps + 1]"
      using True by (simp add: upt_conv_Cons)
    have rq: "requests st + 1 + (totalSteps - 1 - (step st + 1)) = requests st + (totalSteps - 1 - step st)"
      using True by arith
    from "1.IH"[OF refl p lt]
    have "step (denoise_run rnd t st) = totalSteps"
      and "\<not> pending (denoise_run rnd t st)"
      and "requests (denoise_run rnd t st) = requests st + 1 + (totalSteps - 1 - (step st + 1))"
      and "map stepIndex (frames (denoise_run rnd t st))
         = (map stepIndex (frames st) @ [Some (step st + 1)])
           @ map Some [step st + 2 ..< totalSteps + 1] @ [None]"
      by (simp_all only: unf[symmetric] c) simp_all
    then show ?thesis by (simp only: rq up) simp
  next
    case False
    note c = denoise_last[OF False, of rnd t]
    have eq: "step st + 1 = totalSteps" using False "1.prems" by simp
    have unf: "denoise_run rnd t st = denoise rnd t st"
      using c by (subst denoise_run.simps) (simp add: Let_def)
    have up: "[step st + 1 ..< totalSteps + 1] = [totalSteps]"
      using eq by (simp add: upt_conv_Cons)
    have rq: "totalSteps - 1 - step st = 0" using eq by arith
    show ?thesis using eq by (simp only: unf c up rq) simp
  qed
qed

lemma onload_trace:
  "map stepIndex (frames (onload rnd targetData k)) = map Some [1 ..< 91] @ [None]
    \<and> length (frames (onload rnd targetData k)) = 91
    \<and> step (onload rnd targetData k) = 90
    \<and> requests (onload rnd targetData k) = 89
    \<and> \<not> pending (onload rnd targetData k)
    \<and> step (fresh k) = 0"
proof -
  have "step (fresh k) < totalSteps" by (simp add: fresh_def totalSteps_def)
  from denoise_run_trace[OF this, of rnd targetData]
  have t: "step (onload rnd targetData k) = 90" "\<not> pending (onload rnd targetData k)"
    "requests (onload rnd targetData k) = 89"
    "map stepIndex (frames (onload rnd targetData k)) = map Some [1 ..< 91] @ [None]"
    by (simp_all add: onload_def fresh_def totalSteps_def)
  have "length (frames (onload rnd targetData k))
      = length (map stepIndex (frames (onload rnd targetData k)))" by simp
  also have "\<dots> = 91" by (simp only: t(4)) simp
  finally have "length (frames (onload rnd targetData k)) = 91" .
  then show ?thesis using t by (simp add: fresh_def)
qed

section \<open>Exact convergence\<close>

lemma to_uint8_clamp_nat:
  assumes "n < 256"
  shows "to_uint8_clamp (real n) = word_of_nat n"
proof -
  consider "n = 0" | "n = 255" | "0 < n" "n < 255" using assms by linarith
  then show ?thesis
  proof cases
    case 1
    then show ?thesis by (simp add: to_uint8_clamp_def)
  next
    case 2
    then show ?thesis by (simp add: to_uint8_clamp_def)
  next
    case 3
    then show ?thesis by (simp add: to_uint8_clamp_def Let_def)
  qed
qed

lemma to_uint8_clamp_byte: "to_uint8_clamp (real (unat (b::byte))) = b"
proof -
  define n where "n = unat b"
  have "n < 2 ^ LENGTH(8)" unfolding n_def by (rule unsigned_less)
  then have "n < 256" by simp
  then have "to_uint8_clamp (real n) = word_of_nat n" by (rule to_uint8_clamp_nat)
  also have "word_of_nat n = b" unfolding n_def by simp
  finally show ?thesis unfolding n_def .
qed

lemma store_rd:
  assumes "i < length t"
  shows "store_num (rd t (real i)) = t ! i"
proof -
  have "rd t (real i) = Some (real (unat (t ! i)))"
    unfolding rd_def using assms by simp
  then show ?thesis by (simp only: store_num_def option.case to_uint8_clamp_byte)
qed

lemma fold_update_prefix:
  "n \<le> length d \<Longrightarrow> fold (\<lambda>i d. d[i := f i]) [0..<n] d = map f [0..<n] @ drop n d"
proof (induction n)
  case 0
  then show ?case by simp
next
  case (Suc n)
  then have n: "n < length d" by simp
  have "fold (\<lambda>i d. d[i := f i]) [0..<Suc n] d = (map f [0..<n] @ drop n d)[n := f n]"
    using Suc by simp
  also have "\<dots> = map f [0..<n] @ (drop n d)[0 := f n]"
    by (simp add: list_update_append)
  also have "(drop n d)[0 := f n] = f n # drop (Suc n) d"
    using n by (simp add: Cons_nth_drop_Suc[symmetric])
  finally show ?case by simp
qed

lemma copy_target_eq:
  assumes "length d = length t"
  shows "copy_target t d = t"
proof -
  have "copy_target t d = map (\<lambda>i. store_num (rd t (real i))) [0..<length d]"
    unfolding copy_target_def by (simp add: fold_update_prefix)
  also have "\<dots> = map (\<lambda>i. t ! i) [0..<length t]"
    using assms by (simp add: store_rd)
  also have "\<dots> = t" by (rule map_nth)
  finally show ?thesis .
qed

lemma length_denoise_pixel:
  "length (fst (denoise_pixel rnd t bs ns ss y x p)) = length (fst p)"
  by (cases p) (simp add: denoise_pixel_def Let_def)

lemma length_fold_pixels:
  "length (fst (fold (\<lambda>x. denoise_pixel rnd t bs ns ss y x) xs p)) = length (fst p)"
  by (induction xs arbitrary: p) (simp_all add: length_denoise_pixel)

lemma length_fold_rows:
  "length (fst (fold (\<lambda>y. fold (\<lambda>x. denoise_pixel rnd t bs ns ss y x) xs) ys p)) = length (fst p)"
  by (induction ys arbitrary: p) (simp_all add: length_fold_pixels)

lemma length_denoise_pass: "length (fst (denoise_pass rnd t s p)) = length (fst p)"
  by (simp add: denoise_pass_def Let_def length_fold_rows)

lemma denoise_done:
  assumes "\<not> pending (denoise rnd t st)" "length (data st) = length t"
  shows "data (denoise rnd t st) = t \<and> frames (denoise rnd t st) \<noteq> []
    \<and> last (frames (denoise rnd t st)) = FinalFrame t"
proof -
  obtain d k where p: "denoise_pass rnd t (step st + 1) (data st, draws st) = (d, k)"
    by (cases "denoise_pass rnd t (step st + 1) (data st, draws st)")
  have "length d = length t"
    using length_denoise_pass[of rnd t "step st + 1" "(data st, draws st)"] p assms(2) by simp
  then have c: "copy_target t d = t" by (rule copy_target_eq)
  show ?thesis using assms(1) p c by (simp add: denoise_def Let_def split: if_splits)
qed

lemma denoise_length:
  assumes "pending (denoise rnd t st)"
  shows "length (data (denoise rnd t st)) = length (data st)"
proof -
  obtain d k where p: "denoise_pass rnd t (step st + 1) (data st, draws st) = (d, k)"
    by (cases "denoise_pass rnd t (step st + 1) (data st, draws st)")
  have "length d = length (data st)"
    using length_denoise_pass[of rnd t "step st + 1" "(data st, draws st)"] p by simp
  then show ?thesis using assms p by (simp add: denoise_def Let_def split: if_splits)
qed

lemma denoise_run_converges:
  "length (data st) = length t \<Longrightarrow>
     data (denoise_run rnd t st) = t \<and> frames (denoise_run rnd t st) \<noteq> []
     \<and> last (frames (denoise_run rnd t st)) = FinalFrame t"
proof (induction rnd t st rule: denoise_run.induct)
  case (1 rnd t st)
  show ?case
  proof (cases "pending (denoise rnd t st)")
    case True
    then have "length (data (denoise rnd t st)) = length t"
      using denoise_length "1.prems" by simp
    then show ?thesis using "1.IH"[OF refl True] True
      by (subst (1 2 3) denoise_run.simps) (simp add: Let_def)
  next
    case False
    then show ?thesis using denoise_done[OF False "1.prems"]
      by (subst (1 2 3) denoise_run.simps) (simp add: Let_def)
  qed
qed

text \<open>
  Claim C1. For every target grid of 64 * 64 * 4 bytes, whatever the random draws, the run of
  the denoiser ends with the buffer equal to the target grid, byte for byte (alpha bytes
  included), and the last frame it draws is the final frame holding exactly that buffer.
\<close>

theorem terminal_frame_is_target:
  assumes "length targetData = noiseRes * noiseRes * 4"
  shows "data (onload rnd targetData k) = targetData
    \<and> last (frames (onload rnd targetData k)) = FinalFrame targetData
    \<and> (\<forall>i < length targetData. data (onload rnd targetData k) ! i = targetData ! i)"
proof -
  have "length (data (fresh k)) = length targetData" using assms by (simp add: fresh_def)
  then show ?thesis unfolding onload_def using denoise_run_converges by simp
qed

theorem terminal_frame_is_target_witness:
  "length (replicate 16384 (7::byte)) = noiseRes * noiseRes * 4
    \<and> data (onload (\<lambda>_. 1 / 2) (replicate 16384 7) 0) = replicate 16384 7"
  using terminal_frame_is_target[of "replicate 16384 7" "\<lambda>_. 1 / 2" 0] by (simp add: noiseRes_def)

section \<open>The point cloud\<close>

lemma jitter_bound: "0 \<le> r \<Longrightarrow> r < 1 \<Longrightarrow> \<bar>jitter r\<bar> \<le> 1"
  by (simp add: jitter_def abs_le_iff)

lemma stipple_pixel_near:
  assumes "unit_rand rnd" "x < sz" "y < sz" "x mod 3 = 0" "y mod 3 = 0"
    and "\<forall>d \<in> set (fst acc). near_grid sz d"
  shows "\<forall>d \<in> set (fst (stipple_pixel rnd sz pix y x acc)). near_grid sz d"
proof -
  obtain dots k where acc: "acc = (dots, k)" by (cases acc)
  have j: "\<bar>jitter (rnd (k + 1))\<bar> \<le> 1" "\<bar>jitter (rnd (k + 2))\<bar> \<le> 1"
    using assms(1) by (simp_all add: unit_rand_def jitter_bound)
  have "near_grid sz (real x + jitter (rnd (k + 1)), real y + jitter (rnd (k + 2)))"
    unfolding near_grid_def using assms(2-5) j by (intro exI[of _ x] exI[of _ y]) simp
  then show ?thesis using assms(6)
    by (auto simp: acc stipple_pixel_def Let_def split: option.splits)
qed

lemma stipple_row_near:
  "unit_rand rnd \<Longrightarrow> y < sz \<Longrightarrow> y mod 3 = 0 \<Longrightarrow> x mod 3 = 0 \<Longrightarrow>
     \<forall>d \<in> set (fst acc). near_grid sz d \<Longrightarrow>
     \<forall>d \<in> set (fst (stipple_row rnd sz pix y x acc)). near_grid sz d"
proof (induction rnd sz pix y x acc rule: stipple_row.induct)
  case (1 rnd sz pix y x acc)
  show ?case
  proof (cases "x < sz")
    case True
    have "\<forall>d \<in> set (fst (stipple_pixel rnd sz pix y x acc)). near_grid sz d"
      using stipple_pixel_near[OF "1.prems"(1) True "1.prems"(2,4,3,5)] .
    moreover have "(x + 3) mod 3 = 0" using "1.prems"(4) by presburger
    ultimately show ?thesis
      using "1.IH"[OF True "1.prems"(1,2,3)] True by (subst stipple_row.simps) simp
  next
    case False
    then show ?thesis using "1.prems"(5) by (subst stipple_row.simps) simp
  qed
qed

lemma stipple_rows_near:
  "unit_rand rnd \<Longrightarrow> y mod 3 = 0 \<Longrightarrow> \<forall>d \<in> set (fst acc). near_grid sz d \<Longrightarrow>
     \<forall>d \<in> set (fst (stipple_rows rnd sz pix y acc)). near_grid sz d"
proof (induction rnd sz pix y acc rule: stipple_rows.induct)
  case (1 rnd sz pix y acc)
  show ?case
  proof (cases "y < sz")
    case True
    have "\<forall>d \<in> set (fst (stipple_row rnd sz pix y 0 acc)). near_grid sz d"
      using stipple_row_near[OF "1.prems"(1) True "1.prems"(2) mod_0 "1.prems"(3)] .
    moreover have "(y + 3) mod 3 = 0" using "1.prems"(2) by presburger
    ultimately show ?thesis
      using "1.IH"[OF True "1.prems"(1)] True by (subst stipple_rows.simps) simp
  next
    case False
    then show ?thesis using "1.prems"(3) by (subst stipple_rows.simps) simp
  qed
qed

lemma probability_zero: "probability (brightness 0 0 0) = 0"
  by (simp add: probability_def brightness_def)

lemma stipple_pixel_black:
  assumes "unit_rand rnd" "sampled_black sz pix" "x < sz" "y < sz" "x mod 3 = 0" "y mod 3 = 0"
  shows "fst (stipple_pixel rnd sz pix y x acc) = fst acc"
proof -
  obtain dots k where acc: "acc = (dots, k)" by (cases acc)
  define i where "i = (y * sz + x) * 4"
  have z: "i + c < length pix \<Longrightarrow> c < 3 \<Longrightarrow> pix ! (i + c) = 0" for c
    using assms(2)[unfolded sampled_black_def, rule_format, of x y c] assms(3-6)
    unfolding i_def by simp
  have r0: "rd pix (real i) = Some r \<Longrightarrow> r = 0" for r
    using z[of 0] by (auto simp: rd_nat split: if_splits)
  have r1: "rd pix (real (i + 1)) = Some r \<Longrightarrow> r = 0" for r
    using z[of 1] by (auto simp only: rd_nat split: if_splits) simp
  have r2: "rd pix (real (i + 2)) = Some r \<Longrightarrow> r = 0" for r
    using z[of 2] by (auto simp only: rd_nat split: if_splits) simp
  have nn: "\<not> rnd k < 0" using assms(1) by (simp add: unit_rand_def not_less)
  show ?thesis
    unfolding acc stipple_pixel_def Let_def i_def[symmetric]
    using r0 r1 r2 nn probability_zero
    by (auto split: option.splits)
qed

lemma stipple_row_black:
  "unit_rand rnd \<Longrightarrow> sampled_black sz pix \<Longrightarrow> y < sz \<Longrightarrow> y mod 3 = 0 \<Longrightarrow> x mod 3 = 0 \<Longrightarrow>
     fst (stipple_row rnd sz pix y x acc) = fst acc"
proof (induction rnd sz pix y x acc rule: stipple_row.induct)
  case (1 rnd sz pix y x acc)
  show ?case
  proof (cases "x < sz")
    case True
    have p: "fst (stipple_pixel rnd sz pix y x acc) = fst acc"
      using stipple_pixel_black[OF "1.prems"(1,2) True "1.prems"(3,5,4)] .
    have "(x + 3) mod 3 = 0" using "1.prems"(5) by presburger
    then show ?thesis
      using "1.IH"[OF True "1.prems"(1,2,3,4)] True p by (subst stipple_row.simps) simp
  next
    case False
    then show ?thesis by (subst stipple_row.simps) simp
  qed
qed

lemma stipple_rows_black:
  "unit_rand rnd \<Longrightarrow> sampled_black sz pix \<Longrightarrow> y mod 3 = 0 \<Longrightarrow>
     fst (stipple_rows rnd sz pix y acc) = fst acc"
proof (induction rnd sz pix y acc rule: stipple_rows.induct)
  case (1 rnd sz pix y acc)
  show ?case
  proof (cases "y < sz")
    case True
    have p: "fst (stipple_row rnd sz pix y 0 acc) = fst acc"
      using stipple_row_black[OF "1.prems"(1,2) True "1.prems"(3) mod_0] .
    have "(y + 3) mod 3 = 0" using "1.prems"(3) by presburger
    then show ?thesis
      using "1.IH"[OF True "1.prems"(1,2)] True p by (subst stipple_rows.simps) simp
  next
    case False
    then show ?thesis by (subst stipple_rows.simps) simp
  qed
qed

lemma probability_mono: "0 \<le> a \<Longrightarrow> a \<le> b \<Longrightarrow> probability a \<le> probability b"
  unfolding probability_def by (intro powr_mono2) simp_all

text \<open>
  Claim C8. The inclusion probability \<open>brightness powr 2.5\<close> does not decrease with the
  brightness, is 0 at 0 and 1 at 1; every dot painted lies within one pixel, on each axis,
  of a sampled grid position; and when every sampled pixel is black no dot is painted: the
  canvas is given the black background only.
\<close>

theorem stipple_properties:
  assumes "0 \<le> a" "a \<le> b" "unit_rand rnd" "sampled_black sz black"
  shows "probability a \<le> probability b \<and> probability 0 = 0 \<and> probability 1 = 1
    \<and> (\<forall>d \<in> set (fst (stipple_rows rnd sz pix 0 ([], k))). near_grid sz d)
    \<and> fst (stipple_rows rnd sz black 0 ([], k)) = []
    \<and> pointCloud rnd sz black k = [FillRect ''#000000'' 0 0 (real sz) (real sz)]"
proof -
  have n: "\<forall>d \<in> set (fst (stipple_rows rnd sz pix 0 ([], k))). near_grid sz d"
    using stipple_rows_near[OF assms(3), of 0 "([], k)" sz pix] by simp
  have e: "fst (stipple_rows rnd sz black 0 ([], k)) = []"
    using stipple_rows_black[OF assms(3,4), of 0 "([], k)"] by simp
  have p: "pointCloud rnd sz black k = [FillRect ''#000000'' 0 0 (real sz) (real sz)]"
    unfolding pointCloud_def e by simp
  have "probability 0 = 0" "probability 1 = 1" by (simp_all add: probability_def)
  then show ?thesis using probability_mono[OF assms(1,2)] n e p by blast
qed

theorem stipple_properties_witness:
  "(0::real) \<le> 1 / 4 \<and> (1::real) / 4 \<le> 1 / 2 \<and> unit_rand (\<lambda>_. 0) \<and> sampled_black 2 (replicate 16 0)
    \<and> probability (1 / 4) \<le> probability (1 / 2)
    \<and> pointCloud (\<lambda>_. 0) 2 (replicate 16 0) 0 = [FillRect ''#000000'' 0 0 (real 2) (real 2)]"
proof -
  have h: "(0::real) \<le> 1 / 4" "(1::real) / 4 \<le> 1 / 2" "unit_rand (\<lambda>_. 0)"
    "sampled_black 2 (replicate 16 0)"
    by (simp_all add: unit_rand_def sampled_black_def)
  from stipple_properties[OF h, of "replicate 16 0" 0] show ?thesis using h by blast
qed

section \<open>The controller\<close>

lemma request_fields:
  "isAnalyzing (request cb s) = isAnalyzing s" "hasCaptured (request cb s) = hasCaptured s"
  "aiConcept (request cb s) = aiConcept s" "generatedImage (request cb s) = generatedImage s"
  "awaiting (request cb s) = awaiting s" "loading (request cb s) = loading s"
  "isCameraReady (request cb s) = isCameraReady s" "rendered (request cb s) = rendered s"
  "cleanup (request cb s) = cleanup s"
  by (simp_all add: request_def)

lemma cancelCurrent_fields:
  "isAnalyzing (cancelCurrent s) = isAnalyzing s" "hasCaptured (cancelCurrent s) = hasCaptured s"
  "aiConcept (cancelCurrent s) = aiConcept s" "generatedImage (cancelCurrent s) = generatedImage s"
  "awaiting (cancelCurrent s) = awaiting s" "loading (cancelCurrent s) = loading s"
  "isCameraReady (cancelCurrent s) = isCameraReady s" "rendered (cancelCurrent s) = rendered s"
  "cleanup (cancelCurrent s) = cleanup s" "animationRef (cancelCurrent s) = animationRef s"
  "nextHandle (cancelCurrent s) = nextHandle s"
  by (simp_all add: cancelCurrent_def split: option.splits)

lemma drawNoise_fields:
  "isAnalyzing (drawNoise s) = isAnalyzing s" "hasCaptured (drawNoise s) = hasCaptured s"
  "aiConcept (drawNoise s) = aiConcept s" "generatedImage (drawNoise s) = generatedImage s"
  "awaiting (drawNoise s) = awaiting s" "loading (drawNoise s) = loading s"
  "isCameraReady (drawNoise s) = isCameraReady s" "cleanup (drawNoise s) = cleanup s"
  by (simp_all add: drawNoise_def request_def)

lemma denoiseCall_fields:
  "isAnalyzing (denoiseCall k s) = isAnalyzing s" "hasCaptured (denoiseCall k s) = hasCaptured s"
  "aiConcept (denoiseCall k s) = aiConcept s" "generatedImage (denoiseCall k s) = generatedImage s"
  "awaiting (denoiseCall k s) = awaiting s" "loading (denoiseCall k s) = loading s"
  "isCameraReady (denoiseCall k s) = isCameraReady s" "cleanup (denoiseCall k s) = cleanup s"
  by (simp_all add: denoiseCall_def request_def Let_def)

lemma effect_fields:
  "isAnalyzing (effect s) = isAnalyzing s" "hasCaptured (effect s) = hasCaptured s"
  "aiConcept (effect s) = aiConcept s" "generatedImage (effect s) = generatedImage s"
  "awaiting (effect s) = awaiting s" "isCameraReady (effect s) = isCameraReady s"
  by (simp_all add: effect_def drawNoise_fields cancelCurrent_fields)

lemma commit_fields:
  "isAnalyzing (commit old s) = isAnalyzing s" "hasCaptured (commit old s) = hasCaptured s"
  "aiConcept (commit old s) = aiConcept s" "generatedImage (commit old s) = generatedImage s"
  "awaiting (commit old s) = awaiting s" "isCameraReady (commit old s) = isCameraReady s"
  by (simp_all add: commit_def effect_fields cancelCurrent_fields)

lemma runCallback_fields:
  "isAnalyzing (runCallback c s) = isAnalyzing s" "hasCaptured (runCallback c s) = hasCaptured s"
  "aiConcept (runCallback c s) = aiConcept s" "generatedImage (runCallback c s) = generatedImage s"
  "awaiting (runCallback c s) = awaiting s" "loading (runCallback c s) = loading s"
  "isCameraReady (runCallback c s) = isCameraReady s" "cleanup (runCallback c s) = cleanup s"
  by (simp_all add: runCallback_def drawNoise_fields denoiseCall_fields split: callback.splits)

lemma fold_runCallback_fields:
  "isAnalyzing (fold runCallback cs s) = isAnalyzing s"
  "hasCaptured (fold runCallback cs s) = hasCaptured s"
  "aiConcept (fold runCallback cs s) = aiConcept s"
  "generatedImage (fold runCallback cs s) = generatedImage s"
  "awaiting (fold runCallback cs s) = awaiting s"
  "loading (fold runCallback cs s) = loading s"
  "isCameraReady (fold runCallback cs s) = isCameraReady s"
  "cleanup (fold runCallback cs s) = cleanup s"
  by (induction cs arbitrary: s; simp add: runCallback_fields)+

lemma chain_inv_step:
  assumes "chain_inv s"
  shows "chain_inv (step_app e s)"
proof (cases e)
  case (Click w h)
  then show ?thesis using assms
    by (auto simp: chain_inv_def captureSubject_def commit_fields)
next
  case (VisionOk resp)
  then show ?thesis using assms
    by (auto simp: chain_inv_def commit_fields split: option.splits stage.splits)
next
  case VisionFail
  then show ?thesis using assms
    by (auto simp: chain_inv_def failed_def commit_fields split: option.splits stage.splits)
next
  case (ImageOk d)
  then show ?thesis using assms
    by (auto simp: chain_inv_def failed_def commit_fields split: option.splits stage.splits)
next
  case ImageFail
  then show ?thesis using assms
    by (auto simp: chain_inv_def failed_def commit_fields split: option.splits stage.splits)
next
  case Frame
  then show ?thesis using assms by (simp add: chain_inv_def fold_runCallback_fields)
next
  case ImageLoaded
  then show ?thesis using assms
    by (auto simp: chain_inv_def denoiseCall_fields split: list.splits)
next
  case CameraReady
  then show ?thesis using assms by (simp add: chain_inv_def)
qed

lemma chain_inv_mounted: "chain_inv mounted"
  by (simp add: chain_inv_def mounted_def effect_fields)

lemma chain_inv_run: "chain_inv s \<Longrightarrow> chain_inv (run es s)"
  unfolding run_def by (induction es arbitrary: s) (simp_all add: chain_inv_step)

lemma queue_cancelCurrent: "set (queue (cancelCurrent s)) \<subseteq> set (queue s)"
  by (auto simp: cancelCurrent_def split: option.splits)

lemma failed_result:
  assumes "isAnalyzing s" "hasCaptured s" "generatedImage s = None"
  shows "isAnalyzing (failed s) = False \<and> aiConcept (failed s) = Some errorText
    \<and> generatedImage (failed s) = None \<and> awaiting (failed s) = None
    \<and> loading (failed s) = loading s
    \<and> rendered (failed s) = rendered s @ [NoiseFrame]
    \<and> animationRef (failed s) = Some (nextHandle s)
    \<and> (nextHandle s, DrawNoise) \<in> set (queue (failed s))
    \<and> set (queue (failed s)) \<subseteq> insert (nextHandle s, DrawNoise) (set (queue s))"
proof -
  define s1 where "s1 = s\<lparr>aiConcept := Some errorText, isAnalyzing := False\<rparr>"
  define s2 where "s2 = (if cleanup s1 then cancelCurrent s1 else s1)"
  have d: "deps s1 \<noteq> deps s" using assms(1) by (simp add: deps_def s1_def)
  have f2: "hasCaptured s2" "\<not> isAnalyzing s2" "generatedImage s2 = None"
    "aiConcept s2 = Some errorText" "loading s2 = loading s" "rendered s2 = rendered s"
    "nextHandle s2 = nextHandle s"
    using assms by (simp_all add: s2_def s1_def cancelCurrent_fields)
  have q2: "set (queue s2) \<subseteq> set (queue s)"
    using queue_cancelCurrent[of s1] by (auto simp: s2_def s1_def)
  have c: "commit s s1 = (drawNoise s2)\<lparr>cleanup := True\<rparr>"
    using d f2 by (simp add: commit_def s2_def[symmetric] effect_def truthy_def errorText_def)
  have "failed s = (drawNoise s2)\<lparr>cleanup := True, awaiting := None\<rparr>"
    by (simp add: failed_def s1_def[symmetric] c)
  then show ?thesis using f2 q2
    by (auto simp: drawNoise_def request_def)
qed

lemmas app_eval = run_def mounted_def effect_def commit_def deps_def captureSubject_def failed_def
  drawNoise_def denoiseCall_def request_def cancelCurrent_def runCallback_def truthy_def
  conceptOf_def trim_def is_space_def errorText_def fallbackConcept_def captionOf_def
  totalSteps_def Let_def

text \<open>
  Against claim C3 as stated: when the image service answers without image data, the text
  stored for the caption is not "Error: system failed to generate image" (the code's text
  has a capital S and a final full stop), and the caption shown is the pulsing
  "Synthesizing image from concept..." line.
\<close>

theorem image_failure_caption_counterexample:
  "aiConcept (run [CameraReady, Click 640 480, VisionOk (Some ''a red cup''), ImageOk None] mounted)
      \<noteq> Some ''Error: system failed to generate image''
   \<and> captionOf (run [CameraReady, Click 640 480, VisionOk (Some ''a red cup''), ImageOk None] mounted)
      = Synthesizing"
  by (simp add: app_eval)

text \<open>
  Claim C4 on the code: when the button is clicked again after the image has arrived but
  before its load event, the cleanup has nothing to cancel, the noise loop starts, and the
  load handler of the old image then starts the denoiser beside it. Two callbacks are
  scheduled at once, and both loops go on at the next animation frame.
\<close>

theorem two_loops_after_late_load:
  "queue (run [CameraReady, Click 640 480, VisionOk (Some ''a red cup''), ImageOk (Some ''QUJD''),
       Click 640 480, ImageLoaded] mounted) = [(3, DrawNoise), (4, Denoise 1)]
   \<and> queue (run [CameraReady, Click 640 480, VisionOk (Some ''a red cup''), ImageOk (Some ''QUJD''),
       Click 640 480, ImageLoaded, Frame] mounted) = [(5, DrawNoise), (6, Denoise 2)]"
  by (simp add: app_eval)

text \<open>
  Against claim C9 as stated: a response whose text is two blanks is not empty, and the
  concept is the fallback all the same.
\<close>

theorem fallback_on_blank_text_counterexample:
  "conceptOf (Some ''  '') = ''Unidentified object'' \<and> ''  '' \<noteq> ''''"
  by (simp add: app_eval)

lemma run_snoc: "run (es @ [e]) s = step_app e (run es s)"
  by (simp add: run_def)

lemma after_failure_state:
  "run ([CameraReady, Click 640 480, VisionFail] @ replicate n Frame) mounted
     = \<lparr>isCameraReady = True, hasCaptured = True, isAnalyzing = False,
         aiConcept = Some errorText, generatedImage = None, animationRef = Some (n + 2),
         nextHandle = n + 3, queue = [(n + 2, DrawNoise)], loading = [], cleanup = True,
         awaiting = None, rendered = Black # replicate (n + 2) NoiseFrame\<rparr>"
proof (induction n)
  case 0
  show ?case by (simp add: app_eval)
next
  case (Suc n)
  have "run ([CameraReady, Click 640 480, VisionFail] @ replicate (Suc n) Frame) mounted
      = step_app Frame (run ([CameraReady, Click 640 480, VisionFail] @ replicate n Frame) mounted)"
  proof -
    have "[CameraReady, Click 640 480, VisionFail] @ replicate (Suc n) Frame
        = ([CameraReady, Click 640 480, VisionFail] @ replicate n Frame) @ [Frame]"
      by (simp add: replicate_append_same)
    then show ?thesis by (simp only: run_snoc)
  qed
  also have "\<dots> = \<lparr>isCameraReady = True, hasCaptured = True, isAnalyzing = False,
         aiConcept = Some errorText, generatedImage = None, animationRef = Some (Suc n + 2),
         nextHandle = Suc n + 3, queue = [(Suc n + 2, DrawNoise)], loading = [], cleanup = True,
         awaiting = None, rendered = Black # replicate (Suc n + 2) NoiseFrame\<rparr>"
    unfolding Suc.IH
    by (simp add: runCallback_def drawNoise_def request_def replicate_append_same)
  finally show ?case .
qed

lemma after_image_failure_state:
  "run ([CameraReady, Click 640 480, VisionOk (Some ''a red cup''), ImageFail] @ replicate n Frame) mounted
     = \<lparr>isCameraReady = True, hasCaptured = True, isAnalyzing = False,
         aiConcept = Some errorText, generatedImage = None, animationRef = Some (n + 3),
         nextHandle = n + 4, queue = [(n + 3, DrawNoise)], loading = [], cleanup = True,
         awaiting = None, rendered = Black # replicate (n + 3) NoiseFrame\<rparr>"
proof (induction n)
  case 0
  show ?case by (simp add: app_eval numeral_3_eq_3)
next
  case (Suc n)
  have "run ([CameraReady, Click 640 480, VisionOk (Some ''a red cup''), ImageFail]
        @ replicate (Suc n) Frame) mounted
      = step_app Frame (run ([CameraReady, Click 640 480, VisionOk (Some ''a red cup''), ImageFail]
        @ replicate n Frame) mounted)"
  proof -
    have "[CameraReady, Click 640 480, VisionOk (Some ''a red cup''), ImageFail] @ replicate (Suc n) Frame
        = ([CameraReady, Click 640 480, VisionOk (Some ''a red cup''), ImageFail] @ replicate n Frame)
          @ [Frame]"
      by (simp add: replicate_append_same)
    then show ?thesis by (simp only: run_snoc)
  qed
  also have "\<dots> = \<lparr>isCameraReady = True, hasCaptured = True, isAnalyzing = False,
         aiConcept = Some errorText, generatedImage = None, animationRef = Some (Suc n + 3),
         nextHandle = Suc n + 4, queue = [(Suc n + 3, DrawNoise)], loading = [], cleanup = True,
         awaiting = None, rendered = Black # replicate (Suc n + 3) NoiseFrame\<rparr>"
    unfolding Suc.IH
    by (simp add: runCallback_def drawNoise_def request_def replicate_append_same eval_nat_numeral)
  finally show ?case .
qed

text \<open>
  Claim C2 on the code: after the first call has failed, the effect runs again with the error
  text as a truthy concept and no image, so it starts the noise loop anew. After \<open>n\<close> more
  animation frames one \<open>drawNoise\<close> callback is still scheduled, \<open>n + 2\<close> noise frames have
  been drawn on the right canvas, and the caption is the "Synthesizing" line. The same
  happens when the second call fails.
\<close>

theorem noise_runs_on_after_failure:
  "queue (run ([CameraReady, Click 640 480, VisionFail] @ replicate n Frame) mounted)
      = [(n + 2, DrawNoise)]
   \<and> rendered (run ([CameraReady, Click 640 480, VisionFail] @ replicate n Frame) mounted)
      = Black # replicate (n + 2) NoiseFrame
   \<and> captionOf (run ([CameraReady, Click 640 480, VisionFail] @ replicate n Frame) mounted)
      = Synthesizing
   \<and> queue (run ([CameraReady, Click 640 480, VisionOk (Some ''a red cup''), ImageFail]
        @ replicate n Frame) mounted) = [(n + 3, DrawNoise)]
   \<and> rendered (run ([CameraReady, Click 640 480, VisionOk (Some ''a red cup''), ImageFail]
        @ replicate n Frame) mounted) = Black # replicate (n + 3) NoiseFrame"
  unfolding after_failure_state after_image_failure_state
  by (simp add: captionOf_def truthy_def errorText_def)

text \<open>
  Claim C3, amended. In a state reached from the mounted page in which \<open>captureSubject\<close>
  awaits the image service, an answer without image data (none, or the empty string) or a
  failure of the call ends the analysis, stores exactly the text
  "Error: System failed to generate image." for the caption, leaves the generated image
  unset, adds no image to load and schedules no \<open>denoise\<close> callback that was not scheduled
  before: this transition starts no denoiser.
\<close>

theorem image_failure_sets_error:
  assumes "s = run es mounted" "awaiting s = Some (ImageGen c)"
    and "e = ImageFail \<or> e = ImageOk None \<or> e = ImageOk (Some [])"
  shows "\<not> isAnalyzing (step_app e s)
    \<and> aiConcept (step_app e s) = Some ''Error: System failed to generate image.''
    \<and> generatedImage (step_app e s) = None
    \<and> awaiting (step_app e s) = None
    \<and> loading (step_app e s) = loading s
    \<and> (\<forall>h k. (h, Denoise k) \<in> set (queue (step_app e s)) \<longrightarrow> (h, Denoise k) \<in> set (queue s))"
proof -
  have "chain_inv s" unfolding assms(1) using chain_inv_mounted by (rule chain_inv_run)
  then have a: "isAnalyzing s" "hasCaptured s" "generatedImage s = None"
    using assms(2) by (simp_all add: chain_inv_def)
  have e: "step_app e s = failed s"
    using assms(2,3) by (auto simp: truthy_def)
  show ?thesis unfolding e using failed_result[OF a] by (auto simp: errorText_def)
qed

theorem image_failure_sets_error_witness:
  "awaiting (run [CameraReady, Click 640 480, VisionOk (Some ''a red cup'')] mounted)
      = Some (ImageGen ''a red cup'')
   \<and> aiConcept (step_app (ImageOk None)
        (run [CameraReady, Click 640 480, VisionOk (Some ''a red cup'')] mounted))
      = Some ''Error: System failed to generate image.''
   \<and> generatedImage (step_app (ImageOk None)
        (run [CameraReady, Click 640 480, VisionOk (Some ''a red cup'')] mounted)) = None"
proof -
  have h: "awaiting (run [CameraReady, Click 640 480, VisionOk (Some ''a red cup'')] mounted)
      = Some (ImageGen ''a red cup'')"
    by (simp add: app_eval)
  from image_failure_sets_error[OF refl h, of "ImageOk None"] show ?thesis using h by simp
qed

lemma vision_ok_concept:
  "awaiting s = Some Vision \<Longrightarrow> aiConcept (step_app (VisionOk resp) s) = Some (conceptOf resp)"
  by (simp add: commit_fields)

lemma vision_fail_concept:
  assumes "awaiting s = Some Vision"
  shows "aiConcept (step_app VisionFail s) = Some errorText"
  using assms by (simp add: failed_def commit_fields)

lemma image_ok_caption:
  assumes "awaiting s = Some (ImageGen c)" "hasCaptured s" "d \<noteq> []"
  shows "captionOf (step_app (ImageOk (Some d)) s) = Prompt (aiConcept s)"
  using assms by (simp add: truthy_def captionOf_def commit_fields)

text \<open>
  Claim C9, amended. The concept is the fallback "Unidentified object" exactly when the
  response has no text, or its text is empty once trimmed, or trims to the fallback itself;
  a text that is not empty once trimmed gives its trimmed form. A response sets the concept
  to that value; a failed call sets it to the error text, which is not the fallback. Once
  the image has arrived the caption shows the concept.
\<close>

theorem fallback_concept_exactly:
  assumes "awaiting s = Some Vision" "awaiting s' = Some (ImageGen c)" "hasCaptured s'" "d \<noteq> []"
  shows "(conceptOf resp = ''Unidentified object''
            \<longleftrightarrow> resp = None \<or> trim (the resp) = [] \<or> trim (the resp) = ''Unidentified object'')
    \<and> (resp \<noteq> None \<and> trim (the resp) \<noteq> [] \<longrightarrow> conceptOf resp = trim (the resp))
    \<and> aiConcept (step_app (VisionOk resp) s) = Some (conceptOf resp)
    \<and> aiConcept (step_app VisionFail s) = Some ''Error: System failed to generate image.''
    \<and> aiConcept (step_app VisionFail s) \<noteq> Some ''Unidentified object''
    \<and> captionOf (step_app (ImageOk (Some d)) s') = Prompt (aiConcept s')"
proof -
  have 1: "conceptOf resp = ''Unidentified object''
            \<longleftrightarrow> resp = None \<or> trim (the resp) = [] \<or> trim (the resp) = ''Unidentified object''"
    by (cases resp) (auto simp: conceptOf_def fallbackConcept_def)
  have 2: "resp \<noteq> None \<and> trim (the resp) \<noteq> [] \<longrightarrow> conceptOf resp = trim (the resp)"
    by (cases resp) (auto simp: conceptOf_def)
  have 3: "aiConcept (step_app VisionFail s) = Some ''Error: System failed to generate image.''"
    using vision_fail_concept[OF assms(1)] by (simp add: errorText_def)
  have 4: "aiConcept (step_app VisionFail s) \<noteq> Some ''Unidentified object''"
    unfolding 3 by simp
  show ?thesis
    using 1 2 3 4 vision_ok_concept[OF assms(1), of resp] image_ok_caption[OF assms(2,3,4)]
    by blast
qed

theorem fallback_concept_exactly_witness:
  "awaiting (run [CameraReady, Click 640 480] mounted) = Some Vision
   \<and> awaiting (run [CameraReady, Click 640 480, VisionOk (Some '''')] mounted)
       = Some (ImageGen ''Unidentified object'')
   \<and> hasCaptured (run [CameraReady, Click 640 480, VisionOk (Some '''')] mounted)
   \<and> ''QUJD'' \<noteq> ''''
   \<and> aiConcept (step_app (VisionOk (Some '''')) (run [CameraReady, Click 640 480] mounted))
       = Some (conceptOf (Some ''''))
   \<and> aiConcept (step_app VisionFail (run [CameraReady, Click 640 480] mounted))
       \<noteq> Some ''Unidentified object''
   \<and> captionOf (step_app (ImageOk (Some ''QUJD''))
        (run [CameraReady, Click 640 480, VisionOk (Some '''')] mounted))
       = Prompt (aiConcept (run [CameraReady, Click 640 480, VisionOk (Some '''')] mounted))"
proof -
  have h: "awaiting (run [CameraReady, Click 640 480] mounted) = Some Vision"
    "awaiting (run [CameraReady, Click 640 480, VisionOk (Some '''')] mounted)
       = Some (ImageGen ''Unidentified object'')"
    "hasCaptured (run [CameraReady, Click 640 480, VisionOk (Some '''')] mounted)"
    "''QUJD'' \<noteq> ''''"
    by (simp_all add: app_eval)
  note r = fallback_concept_exactly[OF h, of "Some ''''"]
  show ?thesis by (intro conjI h) (use r in blast)+
qed

section \<open>One loop at a time, when loads are timely\<close>

lemma cancelCurrent_clears:
  assumes "\<forall>c \<in> set (queue s). animationRef s = Some (fst c) \<and> fst c \<noteq> 0"
  shows "queue (cancelCurrent s) = []"
proof (cases "queue s")
  case Nil
  then show ?thesis by (simp add: cancelCurrent_def split: option.splits)
next
  case (Cons c cs)
  then have r: "animationRef s = Some (fst c)" "fst c \<noteq> 0" using assms by simp_all
  have "\<forall>d \<in> set (queue s). fst d = fst c" using assms r by auto
  then have "filter (\<lambda>(h', cb). h' \<noteq> fst c) (queue s) = []"
    by (auto simp: filter_empty_conv)
  then show ?thesis using r by (simp add: cancelCurrent_def)
qed

lemma commit_sched:
  assumes "sched_inv s" "loading s = []"
    and "queue s' = queue s" "animationRef s' = animationRef s" "nextHandle s' = nextHandle s"
      "cleanup s' = cleanup s" "loading s' = loading s"
  shows "length (queue (commit s s')) \<le> 1
    \<and> (\<forall>c \<in> set (queue (commit s s')). animationRef (commit s s') = Some (fst c) \<and> fst c \<noteq> 0)
    \<and> 0 < nextHandle (commit s s')
    \<and> (cleanup (commit s s') \<or> queue (commit s s') = [])
    \<and> (loading (commit s s') = []
        \<or> (length (loading (commit s s')) = 1 \<and> queue (commit s s') = []
            \<and> cleanup (commit s s') \<and> \<not> isAnalyzing s' \<and> truthy (generatedImage s')))"
proof (cases "deps s' = deps s")
  case True
  then have "commit s s' = s'" by (simp add: commit_def)
  then show ?thesis using assms by (simp add: sched_inv_def)
next
  case False
  define s2 where "s2 = (if cleanup s' then cancelCurrent s' else s')"
  have q: "\<forall>c \<in> set (queue s'). animationRef s' = Some (fst c) \<and> fst c \<noteq> 0"
    using assms by (simp add: sched_inv_def)
  have q2: "queue s2 = []"
  proof (cases "cleanup s'")
    case True
    then show ?thesis using cancelCurrent_clears[OF q] by (simp add: s2_def)
  next
    case False
    then show ?thesis using assms by (simp add: s2_def sched_inv_def)
  qed
  have f2: "loading s2 = []" "0 < nextHandle s2" "isAnalyzing s2 = isAnalyzing s'"
    "generatedImage s2 = generatedImage s'"
    using assms by (simp_all add: s2_def sched_inv_def cancelCurrent_fields)
  have c: "commit s s' = effect s2" using False by (simp add: commit_def s2_def)
  have qc: "queue (cancelCurrent s2) = []" using q2 by (simp add: cancelCurrent_clears)
  show ?thesis
    unfolding c using q2 f2 qc
    by (simp add: effect_def drawNoise_def request_def cancelCurrent_fields)
qed

lemma sched_inv_awaiting:
  "sched_inv s \<Longrightarrow> loading s = [] \<or> awaiting s' = None \<Longrightarrow>
     queue s' = queue s \<Longrightarrow> animationRef s' = animationRef s \<Longrightarrow> nextHandle s' = nextHandle s \<Longrightarrow>
     cleanup s' = cleanup s \<Longrightarrow> loading s' = loading s \<Longrightarrow> sched_inv s'"
  by (auto simp: sched_inv_def)

lemma sched_from_commit:
  assumes "sched_inv s" "loading s = []"
    and "queue s' = queue s" "animationRef s' = animationRef s" "nextHandle s' = nextHandle s"
      "cleanup s' = cleanup s" "loading s' = loading s"
    and "isAnalyzing s' \<or> \<not> truthy (generatedImage s') \<or> a = None"
  shows "sched_inv ((commit s s')\<lparr>awaiting := a\<rparr>)"
  using commit_sched[OF assms(1-7)] assms(8)
  by (auto simp: sched_inv_def)

lemma sched_runCallback:
  assumes "queue s = []" "0 < nextHandle s" "cleanup s" "loading s = []"
  shows "sched_inv (runCallback c s)"
  using assms
  by (auto simp: sched_inv_def runCallback_def drawNoise_def denoiseCall_def request_def Let_def
      split: callback.splits)

lemma sched_inv_step:
  assumes "sched_inv s" "chain_inv s" "\<forall>w h. e = Click w h \<longrightarrow> loading s = []"
  shows "sched_inv (step_app e s)"
proof (cases e)
  case CameraReady
  then show ?thesis using assms(1) by (simp add: sched_inv_def)
next
  case (Click w h)
  then have l: "loading s = []" using assms(3) by simp
  show ?thesis
  proof (cases "\<not> isCameraReady s \<or> isAnalyzing s \<or> w = 0 \<or> h = 0")
    case True
    then show ?thesis using Click assms(1) by (auto simp: captureSubject_def)
  next
    case False
    then have "step_app e s = (commit s (s\<lparr>hasCaptured := True, isAnalyzing := True,
        aiConcept := None, generatedImage := None\<rparr>))\<lparr>awaiting := Some Vision\<rparr>"
      using Click by (simp add: captureSubject_def)
    then show ?thesis using sched_from_commit[OF assms(1) l] by simp
  qed
next
  case (VisionOk resp)
  show ?thesis
  proof (cases "awaiting s = Some Vision")
    case True
    then have l: "loading s = []" and an: "isAnalyzing s"
      using assms(1,2) by (auto simp: sched_inv_def chain_inv_def)
    have "step_app e s = (commit s (s\<lparr>aiConcept := Some (conceptOf resp)\<rparr>))
        \<lparr>awaiting := Some (ImageGen (conceptOf resp))\<rparr>"
      using VisionOk True by simp
    then show ?thesis using sched_from_commit[OF assms(1) l] an by simp
  next
    case False
    then have "step_app e s = s" using VisionOk by (simp split: option.splits stage.splits)
    then show ?thesis using assms(1) by simp
  qed
next
  case VisionFail
  show ?thesis
  proof (cases "awaiting s = Some Vision")
    case True
    then have l: "loading s = []" using assms(1) by (auto simp: sched_inv_def)
    have "step_app e s = (commit s (s\<lparr>aiConcept := Some errorText, isAnalyzing := False\<rparr>))
        \<lparr>awaiting := None\<rparr>"
      using VisionFail True by (simp add: failed_def)
    then show ?thesis using sched_from_commit[OF assms(1) l] by simp
  next
    case False
    then have "step_app e s = s" using VisionFail by (simp split: option.splits stage.splits)
    then show ?thesis using assms(1) by simp
  qed
next
  case (ImageOk d)
  show ?thesis
  proof (cases "awaiting s")
    case None
    then have "step_app e s = s" using ImageOk by simp
    then show ?thesis using assms(1) by simp
  next
    case (Some st)
    then have l: "loading s = []" using assms(1) by (auto simp: sched_inv_def)
    show ?thesis
    proof (cases st)
      case Vision
      then have "step_app e s = s" using ImageOk Some by simp
      then show ?thesis using assms(1) by simp
    next
      case (ImageGen c)
      then have "step_app e s = (commit s (s\<lparr>aiConcept := Some errorText, isAnalyzing := False\<rparr>))
          \<lparr>awaiting := None\<rparr>
        \<or> step_app e s = (commit s (s\<lparr>generatedImage := Some (''data:image/jpeg;base64,'' @ the d),
                  isAnalyzing := False\<rparr>))\<lparr>awaiting := None\<rparr>"
        using ImageOk Some by (simp add: failed_def)
      then show ?thesis using sched_from_commit[OF assms(1) l, where a = None] by auto
    qed
  qed
next
  case ImageFail
  show ?thesis
  proof (cases "\<exists>c. awaiting s = Some (ImageGen c)")
    case True
    then have l: "loading s = []" using assms(1) by (auto simp: sched_inv_def)
    have "step_app e s = (commit s (s\<lparr>aiConcept := Some errorText, isAnalyzing := False\<rparr>))
        \<lparr>awaiting := None\<rparr>"
      using ImageFail True by (auto simp: failed_def)
    then show ?thesis using sched_from_commit[OF assms(1) l] by simp
  next
    case False
    then have "step_app e s = s" using ImageFail by (simp split: option.splits stage.splits)
    then show ?thesis using assms(1) by simp
  qed
next
  case Frame
  show ?thesis
  proof (cases "queue s")
    case Nil
    then have "step_app e s = s" using Frame by simp
    then show ?thesis using assms(1) by simp
  next
    case (Cons c cs)
    then have cs: "cs = []" using assms(1) by (simp add: sched_inv_def)
    have p: "0 < nextHandle s" "cleanup s" "loading s = []"
      using assms(1) Cons by (auto simp: sched_inv_def)
    have "step_app e s = runCallback c (s\<lparr>queue := []\<rparr>)" using Frame Cons cs by simp
    then show ?thesis using sched_runCallback[of "s\<lparr>queue := []\<rparr>" c] p by simp
  qed
next
  case ImageLoaded
  show ?thesis
  proof (cases "loading s")
    case Nil
    then have "step_app e s = s" using ImageLoaded by simp
    then show ?thesis using assms(1) by simp
  next
    case (Cons img rest)
    then have p: "rest = []" "queue s = []" "0 < nextHandle s" "cleanup s"
      using assms(1) by (auto simp: sched_inv_def)
    have "step_app e s = runCallback (0, Denoise 0) (s\<lparr>loading := []\<rparr>)"
      using ImageLoaded Cons p by (simp add: runCallback_def)
    then show ?thesis using sched_runCallback[of "s\<lparr>loading := []\<rparr>" "(0, Denoise 0)"] p by simp
  qed
qed

lemma sched_inv_mounted: "sched_inv mounted"
  by (simp add: sched_inv_def mounted_def effect_def)

lemma timely_run:
  "sched_inv s \<Longrightarrow> chain_inv s \<Longrightarrow> timely es s \<Longrightarrow> sched_inv (run es s)"
proof (induction es arbitrary: s)
  case Nil
  then show ?case by (simp add: run_def)
next
  case (Cons e es)
  have c: "\<forall>w h. e = Click w h \<longrightarrow> loading s = []" using Cons.prems(3) by auto
  have "sched_inv (step_app e s)" using sched_inv_step[OF Cons.prems(1,2) c] .
  moreover have "chain_inv (step_app e s)" using Cons.prems(2) by (rule chain_inv_step)
  moreover have "timely es (step_app e s)" using Cons.prems(3) by simp
  ultimately have "sched_inv (run es (step_app e s))" by (rule Cons.IH)
  then show ?case by (simp add: run_def)
qed

lemma one_loop_when_loads_are_timely:
  assumes "timely es mounted"
  shows "length (queue (run es mounted)) \<le> 1"
  using timely_run[OF sched_inv_mounted chain_inv_mounted assms] by (simp add: sched_inv_def)

section \<open>Where the denoiser starts\<close>

lemma quietI:
  assumes "\<And>s. started_inv s \<Longrightarrow> started_inv (f s)"
    and "\<And>s. started_inv s \<Longrightarrow> \<exists>r. rendered (f s) = rendered s @ r \<and> DenoiseFrame 1 \<notin> set r"
  shows "quiet f"
  using assms unfolding quiet_def by blast

lemma quiet_comp:
  assumes "quiet f" "quiet g"
  shows "quiet (\<lambda>s. g (f s))"
proof (rule quietI)
  fix s assume s: "started_inv s"
  then have f: "started_inv (f s)" using assms(1) by (simp add: quiet_def)
  then show "started_inv (g (f s))" using assms(2) by (simp add: quiet_def)
  obtain r where r: "rendered (f s) = rendered s @ r" "DenoiseFrame 1 \<notin> set r"
    using assms(1) s unfolding quiet_def by blast
  obtain r' where r': "rendered (g (f s)) = rendered (f s) @ r'" "DenoiseFrame 1 \<notin> set r'"
    using assms(2) f unfolding quiet_def by blast
  have "rendered (g (f s)) = rendered s @ (r @ r')" using r r' by simp
  moreover have "DenoiseFrame 1 \<notin> set (r @ r')" using r r' by simp
  ultimately show "\<exists>r. rendered (g (f s)) = rendered s @ r \<and> DenoiseFrame 1 \<notin> set r" by blast
qed

lemma quiet_id: "quiet (\<lambda>s. s)"
  by (rule quietI) simp_all

lemma quiet_cancelCurrent: "quiet cancelCurrent"
  by (rule quietI) (auto simp: started_inv_def cancelCurrent_def split: option.splits)

lemma quiet_drawNoise: "quiet drawNoise"
  by (rule quietI) (auto simp: started_inv_def drawNoise_def request_def)

lemma quiet_denoiseCall: "0 < k \<Longrightarrow> quiet (denoiseCall k)"
  by (rule quietI) (auto simp: started_inv_def denoiseCall_def request_def Let_def)

lemma started_cancelCurrent: "started_inv s \<Longrightarrow> started_inv (cancelCurrent s)"
  by (auto simp: started_inv_def cancelCurrent_def split: option.splits)

lemma effect_queue:
  "queue (effect s) = queue s \<or> queue (effect s) = queue s @ [(nextHandle s, DrawNoise)]
    \<or> queue (effect s) = queue (cancelCurrent s)"
  by (simp add: effect_def drawNoise_def request_def)

lemma effect_rendered:
  "rendered (effect s) = rendered s @ [] \<or> rendered (effect s) = rendered s @ [Black]
    \<or> rendered (effect s) = rendered s @ [NoiseFrame]"
  by (simp add: effect_def drawNoise_def request_def cancelCurrent_fields)

lemma started_effect:
  assumes "started_inv s"
  shows "started_inv (effect s)"
proof -
  have "started_inv (cancelCurrent s)" using assms by (rule started_cancelCurrent)
  then show ?thesis using effect_queue[of s] assms
    unfolding started_inv_def by (elim disjE) simp_all
qed

lemma rendered_effect: "\<exists>r. rendered (effect s) = rendered s @ r \<and> DenoiseFrame 1 \<notin> set r"
proof -
  have "DenoiseFrame 1 \<notin> set []" "DenoiseFrame 1 \<notin> set [Black]" "DenoiseFrame 1 \<notin> set [NoiseFrame]"
    by simp_all
  then show ?thesis using effect_rendered[of s] by blast
qed

lemma quiet_effect: "quiet effect"
  by (rule quietI) (rule started_effect, assumption, rule rendered_effect)

lemma commit_cases:
  "commit old s = s \<or> commit old s = effect s \<or> commit old s = effect (cancelCurrent s)"
  by (simp add: commit_def)

lemma commit_quiet:
  assumes "started_inv s"
  shows "started_inv (commit old s)
    \<and> (\<exists>r. rendered (commit old s) = rendered s @ r \<and> DenoiseFrame 1 \<notin> set r)"
proof -
  have cu: "started_inv (cancelCurrent s)" using assms by (rule started_cancelCurrent)
  have rc: "rendered (cancelCurrent s) = rendered s" by (simp add: cancelCurrent_fields)
  note cc = commit_cases[of old s]
  have 1: "started_inv (commit old s)"
    using cc assms started_effect[OF assms] started_effect[OF cu] by (elim disjE) simp_all
  have e: "rendered s = rendered s @ [] \<and> DenoiseFrame 1 \<notin> set []" by simp
  have c: "\<exists>r. rendered (effect (cancelCurrent s)) = rendered s @ r \<and> DenoiseFrame 1 \<notin> set r"
    using rendered_effect[of "cancelCurrent s"] by (simp only: rc)
  have 2: "\<exists>r. rendered (commit old s) = rendered s @ r \<and> DenoiseFrame 1 \<notin> set r"
    using cc
  proof (elim disjE)
    assume "commit old s = s"
    then show ?thesis using e by (simp only:) blast
  next
    assume "commit old s = effect s"
    then show ?thesis using rendered_effect[of s] by (simp only:)
  next
    assume "commit old s = effect (cancelCurrent s)"
    then show ?thesis using c by (simp only:)
  qed
  show ?thesis using 1 2 by blast
qed

lemma quiet_runCallback: "snd c \<noteq> Denoise 0 \<Longrightarrow> quiet (runCallback c)"
proof -
  assume c: "snd c \<noteq> Denoise 0"
  show ?thesis
  proof (cases "snd c")
    case DrawNoise
    then have "runCallback c = drawNoise" by (auto simp: runCallback_def)
    then show ?thesis by (simp add: quiet_drawNoise)
  next
    case (Denoise k)
    then have "0 < k" using c by simp
    moreover have "runCallback c = denoiseCall k" using Denoise by (auto simp: runCallback_def)
    ultimately show ?thesis by (simp add: quiet_denoiseCall)
  qed
qed

lemma quiet_fold:
  "\<forall>c \<in> set cs. snd c \<noteq> Denoise 0 \<Longrightarrow> quiet (fold runCallback cs)"
proof (induction cs)
  case Nil
  have "fold runCallback [] = (\<lambda>s. s)" by (rule ext) simp
  then show ?case using quiet_id by (simp only:)
next
  case (Cons c cs)
  have 1: "quiet (runCallback c)" using Cons.prems by (simp add: quiet_runCallback)
  have 2: "quiet (fold runCallback cs)" using Cons by simp
  have "fold runCallback (c # cs) = (\<lambda>s. fold runCallback cs (runCallback c s))"
    by (rule ext) simp
  then show ?case using quiet_comp[OF 1 2] by (simp only:)
qed

lemma quietD:
  assumes "quiet f" "started_inv s"
  shows "started_inv (f s) \<and> (\<exists>r. rendered (f s) = rendered s @ r \<and> DenoiseFrame 1 \<notin> set r)"
  using assms unfolding quiet_def by blast

text \<open>A handler that updates state fields, renders again and moves the awaited stage.\<close>

lemma handler_quiet:
  assumes "started_inv s" "queue s' = queue s" "rendered s' = rendered s"
  shows "started_inv ((commit s s')\<lparr>awaiting := a\<rparr>)
    \<and> (\<exists>r. rendered ((commit s s')\<lparr>awaiting := a\<rparr>) = rendered s @ r \<and> DenoiseFrame 1 \<notin> set r)"
proof -
  have "started_inv s'" using assms by (simp add: started_inv_def)
  from commit_quiet[OF this, of s] show ?thesis by (simp add: started_inv_def assms(3))
qed

lemma same_quiet:
  assumes "started_inv s"
  shows "started_inv s \<and> (\<exists>r. rendered s = rendered s @ r \<and> DenoiseFrame 1 \<notin> set r)"
  using assms by simp

lemma step_quiet:
  assumes "started_inv s" "e \<noteq> ImageLoaded"
  shows "started_inv (step_app e s)
    \<and> (\<exists>r. rendered (step_app e s) = rendered s @ r \<and> DenoiseFrame 1 \<notin> set r)"
proof (cases e)
  case CameraReady
  then show ?thesis using assms(1) by (simp add: started_inv_def)
next
  case (Click w h)
  show ?thesis
  proof (cases "\<not> isCameraReady s \<or> isAnalyzing s \<or> w = 0 \<or> h = 0")
    case True
    then have "step_app e s = s" using Click by (auto simp: captureSubject_def)
    then show ?thesis using same_quiet[OF assms(1)] by simp
  next
    case False
    then have "step_app e s = (commit s (s\<lparr>hasCaptured := True, isAnalyzing := True,
        aiConcept := None, generatedImage := None\<rparr>))\<lparr>awaiting := Some Vision\<rparr>"
      using Click by (simp add: captureSubject_def)
    then show ?thesis using handler_quiet[OF assms(1)] by simp
  qed
next
  case (VisionOk resp)
  show ?thesis
  proof (cases "awaiting s = Some Vision")
    case True
    have "step_app e s = (commit s (s\<lparr>aiConcept := Some (conceptOf resp)\<rparr>))
        \<lparr>awaiting := Some (ImageGen (conceptOf resp))\<rparr>"
      using VisionOk True by simp
    then show ?thesis using handler_quiet[OF assms(1)] by simp
  next
    case False
    then have "step_app e s = s" using VisionOk by (simp split: option.splits stage.splits)
    then show ?thesis using same_quiet[OF assms(1)] by simp
  qed
next
  case VisionFail
  show ?thesis
  proof (cases "awaiting s = Some Vision")
    case True
    have "step_app e s = (commit s (s\<lparr>aiConcept := Some errorText, isAnalyzing := False\<rparr>))
        \<lparr>awaiting := None\<rparr>"
      using VisionFail True by (simp add: failed_def)
    then show ?thesis using handler_quiet[OF assms(1)] by simp
  next
    case False
    then have "step_app e s = s" using VisionFail by (simp split: option.splits stage.splits)
    then show ?thesis using same_quiet[OF assms(1)] by simp
  qed
next
  case (ImageOk d)
  have "step_app e s = s
    \<or> step_app e s = (commit s (s\<lparr>aiConcept := Some errorText, isAnalyzing := False\<rparr>))
          \<lparr>awaiting := None\<rparr>
    \<or> step_app e s = (commit s (s\<lparr>generatedImage := Some (''data:image/jpeg;base64,'' @ the d),
          isAnalyzing := False\<rparr>))\<lparr>awaiting := None\<rparr>"
    using ImageOk by (simp add: failed_def split: option.splits stage.splits)
  then show ?thesis
    using same_quiet[OF assms(1)] handler_quiet[OF assms(1), where a = None] by (elim disjE) simp_all
next
  case ImageFail
  have "step_app e s = s
    \<or> step_app e s = (commit s (s\<lparr>aiConcept := Some errorText, isAnalyzing := False\<rparr>))
          \<lparr>awaiting := None\<rparr>"
    using ImageFail by (simp add: failed_def split: option.splits stage.splits)
  then show ?thesis
    using same_quiet[OF assms(1)] handler_quiet[OF assms(1), where a = None] by (elim disjE) simp_all
next
  case Frame
  have q: "quiet (fold runCallback (queue s))"
    using assms(1) by (intro quiet_fold) (simp add: started_inv_def)
  have "started_inv (s\<lparr>queue := []\<rparr>)" by (simp add: started_inv_def)
  from quietD[OF q this] show ?thesis using Frame by simp
next
  case ImageLoaded
  then show ?thesis using assms(2) by simp
qed

lemma started_inv_step:
  assumes "started_inv s"
  shows "started_inv (step_app e s)"
proof (cases "e = ImageLoaded")
  case True
  then show ?thesis using assms
    by (auto simp: started_inv_def denoiseCall_def request_def Let_def split: list.splits)
next
  case False
  then show ?thesis using step_quiet[OF assms] by simp
qed

lemma started_inv_mounted: "started_inv mounted"
  by (simp add: started_inv_def mounted_def effect_def)

lemma started_inv_run: "started_inv s \<Longrightarrow> started_inv (run es s)"
  unfolding run_def by (induction es arbitrary: s) (simp_all add: started_inv_step)

lemma first_frame_only_on_load:
  assumes "started_inv s" "DenoiseFrame 1 \<in> set (drawn e s)"
  shows "e = ImageLoaded"
proof (rule ccontr)
  assume "e \<noteq> ImageLoaded"
  from step_quiet[OF assms(1) this]
  obtain r where "rendered (step_app e s) = rendered s @ r" "DenoiseFrame 1 \<notin> set r" by blast
  then have "DenoiseFrame 1 \<notin> set (drawn e s)" by (simp add: drawn_def)
  then show False using assms(2) by simp
qed

lemma effect_loading:
  "loading (effect s) = loading s
    \<or> (\<not> isAnalyzing s \<and> truthy (generatedImage s)
        \<and> loading (effect s) = loading s @ [the (generatedImage s)])"
  by (simp add: effect_def drawNoise_fields cancelCurrent_fields)

lemma commit_loading:
  "loading (commit old s) = loading s
    \<or> (\<not> isAnalyzing s \<and> truthy (generatedImage s)
        \<and> loading (commit old s) = loading s @ [the (generatedImage s)])"
proof -
  note cc = commit_cases[of old s]
  show ?thesis using cc effect_loading[of s] effect_loading[of "cancelCurrent s"]
    by (elim disjE) (simp_all add: cancelCurrent_fields)
qed

lemma loading_grows_only_on_image:
  assumes "chain_inv s" "length (loading s) < length (loading (step_app e s))"
  shows "\<exists>d. e = ImageOk (Some d) \<and> d \<noteq> []
    \<and> loading (step_app e s) = loading s @ [''data:image/jpeg;base64,'' @ d]"
proof (cases e)
  case CameraReady
  then show ?thesis using assms(2) by simp
next
  case (Click w h)
  then show ?thesis
    using assms(2) commit_loading[of s "s\<lparr>hasCaptured := True, isAnalyzing := True,
        aiConcept := None, generatedImage := None\<rparr>"]
    by (auto simp: captureSubject_def split: if_splits)
next
  case (VisionOk resp)
  then show ?thesis
    using assms commit_loading[of s "s\<lparr>aiConcept := Some (conceptOf resp)\<rparr>"]
    by (auto simp: chain_inv_def split: option.splits stage.splits)
next
  case VisionFail
  then show ?thesis
    using assms commit_loading[of s "s\<lparr>aiConcept := Some errorText, isAnalyzing := False\<rparr>"]
    by (auto simp: chain_inv_def failed_def truthy_def split: option.splits stage.splits)
next
  case (ImageOk d)
  then show ?thesis
    using assms commit_loading[of s "s\<lparr>aiConcept := Some errorText, isAnalyzing := False\<rparr>"]
      commit_loading[of s "s\<lparr>generatedImage := Some (''data:image/jpeg;base64,'' @ the d),
          isAnalyzing := False\<rparr>"]
    by (auto simp: chain_inv_def failed_def truthy_def split: option.splits stage.splits if_splits)
next
  case ImageFail
  then show ?thesis
    using assms commit_loading[of s "s\<lparr>aiConcept := Some errorText, isAnalyzing := False\<rparr>"]
    by (auto simp: chain_inv_def failed_def truthy_def split: option.splits stage.splits)
next
  case Frame
  then show ?thesis using assms(2) by (simp add: fold_runCallback_fields)
next
  case ImageLoaded
  then show ?thesis using assms(2) by (auto simp: denoiseCall_fields split: list.splits)
qed

lemma frames_after_load:
  assumes "queue s = []" "loading s = img # rest" "n < totalSteps"
  shows "queue (run (ImageLoaded # replicate n Frame) s)
        = (if Suc n < totalSteps then [(nextHandle s + n, Denoise (Suc n))] else [])
    \<and> nextHandle (run (ImageLoaded # replicate n Frame) s)
        = (if Suc n < totalSteps then nextHandle s + Suc n else nextHandle s + n)
    \<and> rendered (run (ImageLoaded # replicate n Frame) s)
        = rendered s @ map DenoiseFrame [1 ..< n + 2]
          @ (if Suc n < totalSteps then [] else [TerminalFrame])"
  using assms(3)
proof (induction n)
  case 0
  then show ?case using assms(1,2)
    by (simp add: run_def denoiseCall_def request_def Let_def totalSteps_def)
next
  case (Suc n)
  then have n: "Suc n < totalSteps" by simp
  have r: "run (ImageLoaded # replicate (Suc n) Frame) s
      = step_app Frame (run (ImageLoaded # replicate n Frame) s)"
  proof -
    have "ImageLoaded # replicate (Suc n) Frame = (ImageLoaded # replicate n Frame) @ [Frame]"
      by (simp add: replicate_append_same)
    then show ?thesis by (simp only: run_snoc)
  qed
  define t where "t = run (ImageLoaded # replicate n Frame) s"
  have ih: "queue t = [(nextHandle s + n, Denoise (Suc n))]"
    "nextHandle t = nextHandle s + Suc n"
    "rendered t = rendered s @ map DenoiseFrame [1 ..< n + 2]"
    using Suc.IH n by (simp_all add: t_def)
  have up: "[1 ..< Suc n + 2] = [1 ..< n + 2] @ [n + 2]" by simp
  show ?case
    unfolding r t_def[symmetric] up
    using ih by (simp add: runCallback_def denoiseCall_def request_def Let_def)
qed

lemma controller_denoise_run:
  assumes "queue s = []" "loading s = img # rest"
  shows "rendered (run (ImageLoaded # replicate 89 Frame) s)
        = rendered s @ map DenoiseFrame [1 ..< 91] @ [TerminalFrame]
    \<and> queue (run (ImageLoaded # replicate 89 Frame) s) = []"
  using frames_after_load[OF assms, of 89] by (simp add: totalSteps_def)

text \<open>
  Claim C5. Started on a target grid, the denoiser draws the frames of the steps 1, 2, ..., 90
  in this order and then one final frame, 91 frames in all; it asks for 89 animation
  frames (the first call is made by the load handler itself), and after the last call no
  callback is scheduled. Every run starts from the step counter 0; and in every state the
  page can reach, only the load event of an image draws the frame of step 1, and an image
  starts to load only when the image service has answered with image data.
\<close>

theorem denoise_ninety_steps:
  assumes "s = run es mounted"
  shows "map stepIndex (frames (onload rnd targetData k)) = map Some [1 ..< 91] @ [None]
    \<and> length (frames (onload rnd targetData k)) = 91
    \<and> step (onload rnd targetData k) = 90
    \<and> requests (onload rnd targetData k) = 89
    \<and> \<not> pending (onload rnd targetData k)
    \<and> step (fresh k) = 0
    \<and> (DenoiseFrame 1 \<in> set (drawn e s) \<longrightarrow> e = ImageLoaded)
    \<and> (length (loading s) < length (loading (step_app e s)) \<longrightarrow> (\<exists>d. e = ImageOk (Some d) \<and> d \<noteq> []))"
proof -
  have st: "started_inv s" unfolding assms using started_inv_mounted by (rule started_inv_run)
  have ch: "chain_inv s" unfolding assms using chain_inv_mounted by (rule chain_inv_run)
  have 1: "DenoiseFrame 1 \<in> set (drawn e s) \<longrightarrow> e = ImageLoaded"
    using first_frame_only_on_load[OF st] by blast
  have 2: "length (loading s) < length (loading (step_app e s)) \<longrightarrow> (\<exists>d. e = ImageOk (Some d) \<and> d \<noteq> [])"
    using loading_grows_only_on_image[OF ch] by blast
  show ?thesis using onload_trace[of rnd targetData k] 1 2 by blast
qed

theorem denoise_ninety_steps_witness:
  "DenoiseFrame 1 \<in> set (drawn ImageLoaded
      (run [CameraReady, Click 640 480, VisionOk (Some ''a red cup''), ImageOk (Some ''QUJD'')] mounted))
   \<and> length (loading (run [CameraReady, Click 640 480, VisionOk (Some ''a red cup'')] mounted))
       < length (loading (step_app (ImageOk (Some ''QUJD''))
           (run [CameraReady, Click 640 480, VisionOk (Some ''a red cup'')] mounted)))
   \<and> requests (onload (\<lambda>_. 1 / 2) (replicate 16384 7) 0) = 89
   \<and> length (frames (onload (\<lambda>_. 1 / 2) (replicate 16384 7) 0)) = 91"
proof -
  have a: "DenoiseFrame 1 \<in> set (drawn ImageLoaded
      (run [CameraReady, Click 640 480, VisionOk (Some ''a red cup''), ImageOk (Some ''QUJD'')] mounted))"
    by (simp add: drawn_def app_eval)
  have b: "length (loading (run [CameraReady, Click 640 480, VisionOk (Some ''a red cup'')] mounted))
       < length (loading (step_app (ImageOk (Some ''QUJD''))
           (run [CameraReady, Click 640 480, VisionOk (Some ''a red cup'')] mounted)))"
    by (simp add: app_eval)
  note r = denoise_ninety_steps[OF refl, where rnd = "\<lambda>_. 1 / 2" and targetData = "replicate 16384 7"
      and k = 0 and e = ImageLoaded
      and es = "[CameraReady, Click 640 480, VisionOk (Some ''a red cup''), ImageOk (Some ''QUJD'')]"]
  show ?thesis using a b r by blast
qed

end
